theory Spec2Isabelle
  imports Complex_Main
begin

section \<open>Configuration and targets (script.js, lines 10-25)\<close>

definition REFRESH_EVERY_MS :: nat where
  "REFRESH_EVERY_MS = 120000"

definition TIMEOUT_MS :: nat where
  "TIMEOUT_MS = 8000"

definition CONCURRENCY :: nat where
  "CONCURRENCY = 6"

record target =
  name :: string
  kind :: string
  url :: string

definition TARGETS :: "target list" where
  "TARGETS =
     [\<lparr>name = ''jaydenhobbs.co.uk'', kind = ''WEBSITE'', url = ''https://jaydenhobbs.co.uk/''\<rparr>,
      \<lparr>name = ''hobbstech.co.uk'', kind = ''WEBSITE'', url = ''https://hobbstech.co.uk/''\<rparr>,
      \<lparr>name = ''devlindetailing.org'', kind = ''WEBSITE'', url = ''https://devlindetailing.org/''\<rparr>,
      \<lparr>name = ''Proxmox Alpha'', kind = ''SERVER'', url = ''http://192.168.8.178:8006''\<rparr>,
      \<lparr>name = ''Proxmox Delta'', kind = ''SERVER'', url = ''http://192.168.8.224:8006''\<rparr>,
      \<lparr>name = ''Proxmox Bravo'', kind = ''SERVER'', url = ''http://192.168.8.50:8006''\<rparr>]"

section \<open>Results of a probe\<close>

text \<open>
  The status strings of the script. The objects returned by \<open>checkTarget\<close> carry
  \<open>status\<close>, \<open>latencyMs\<close> (a number or \<open>null\<close>) and \<open>note\<close>; the entries of the
  \<open>state\<close> map carry \<open>lastChecked\<close> in addition.
\<close>

datatype status = CHECKING | UP | UP_OPAQUE | SLOW | DOWN

record probe_result =
  status :: status
  latencyMs :: "real option"
  noteStr :: string

record state_entry = probe_result +
  lastChecked :: nat

section \<open>Numbers\<close>

text \<open>
  The numbers of the script are IEEE 754 doubles: every arithmetic result is the exact
  result rounded to the nearest double, ties to the even significand. A double is
  written here as the real number it stands for. \<open>ulp_exponent x\<close> is the exponent
  of the last place of the doubles around \<open>x\<close> (53 significant bits, subnormals below
  \<open>2 ^ - 1022\<close>). Infinities and NaN are left out: the clock readings and random
  samples of the script are finite and far from the largest double.
\<close>

definition round_half_even :: "real \<Rightarrow> int" where
  "round_half_even y =
     (if y - of_int \<lfloor>y\<rfloor> < 1 / 2 then \<lfloor>y\<rfloor>
      else if 1 / 2 < y - of_int \<lfloor>y\<rfloor> then \<lfloor>y\<rfloor> + 1
      else if even \<lfloor>y\<rfloor> then \<lfloor>y\<rfloor> else \<lfloor>y\<rfloor> + 1)"

definition ulp_exponent :: "real \<Rightarrow> int" where
  "ulp_exponent x = max \<lfloor>log 2 \<bar>x\<bar>\<rfloor> (- 1022) - 52"

definition round_double :: "real \<Rightarrow> real" where
  "round_double x =
     (if x = 0 then 0
      else of_int (round_half_even (x / 2 powr of_int (ulp_exponent x))) *
           2 powr of_int (ulp_exponent x))"

definition is_double :: "real \<Rightarrow> bool" where
  "is_double x = (round_double x = x)"

text \<open>The operators \<open>-\<close> and \<open>*\<close> of the script, on doubles.\<close>

definition minus_double :: "real \<Rightarrow> real \<Rightarrow> real" where
  "minus_double a b = round_double (a - b)"

definition times_double :: "real \<Rightarrow> real \<Rightarrow> real" where
  "times_double a b = round_double (a * b)"

section \<open>The platform as seen by one probe\<close>

text \<open>
  \<open>fetch\<close>, \<open>AbortController\<close>, the timer and \<open>performance.now\<close> belong to the browser,
  not to the script. A probe sees them through the values below: what the network
  answers to each of the two requests when the request is not aborted (an error object
  or a response), whether the timer armed at line 122 fires while the request is
  pending, and the three readings of \<open>performance.now()\<close> at lines 124, 135 and 152.
\<close>

datatype js_error = JsError (err_name: string)

datatype response_type = Basic | Cors | Default | Error | Opaque | OpaqueRedirect

record response =
  ok :: bool
  res_status :: nat
  res_type :: response_type

record probe_env =
  t0 :: real
  answer1 :: "js_error + response"
  fired1 :: bool
  now1 :: real
  answer2 :: "js_error + response"
  fired2 :: bool
  now2 :: real

text \<open>
  What a probe does to the platform, in order: the trace of one call. A \<open>Fetch\<close>
  records the mode of the request and whether the signal it was given had already
  aborted when \<open>fetch\<close> was called; \<open>Abort\<close> is the timer's callback calling
  \<open>controller.abort()\<close>. Besides the trace, the state holds \<open>controller.signal.aborted\<close>.
\<close>

datatype fetch_mode = ModeDefault | ModeNoCors

datatype effect = SetTimeout nat | Fetch fetch_mode bool | Abort | ClearTimeout

record platform =
  trace :: "effect list"
  aborted :: bool

section \<open>Asynchronous code with exceptions\<close>

text \<open>
  A computation takes the state of the platform and returns the new state together
  with either the thrown error (\<open>Inl\<close>) or the value (\<open>Inr\<close>). \<open>try_catch\<close> is the
  \<open>try { ... } catch (err) { ... }\<close> of the script.
\<close>

type_synonym 'a io = "platform \<Rightarrow> platform \<times> (js_error + 'a)"

definition ret :: "'a \<Rightarrow> 'a io" where
  "ret v = (\<lambda>s. (s, Inr v))"

definition bind_io :: "'a io \<Rightarrow> ('a \<Rightarrow> 'b io) \<Rightarrow> 'b io" where
  "bind_io m f = (\<lambda>s. case m s of (s', Inl e) \<Rightarrow> (s', Inl e) | (s', Inr v) \<Rightarrow> f v s')"

definition try_catch :: "'a io \<Rightarrow> (js_error \<Rightarrow> 'a io) \<Rightarrow> 'a io" where
  "try_catch m h = (\<lambda>s. case m s of (s', Inl e) \<Rightarrow> h e s' | (s', Inr v) \<Rightarrow> (s', Inr v))"

definition new_AbortController :: "unit io" where
  "new_AbortController = (\<lambda>s. (s\<lparr>aborted := False\<rparr>, Inr ()))"

definition setTimeout :: "nat \<Rightarrow> unit io" where
  "setTimeout ms = (\<lambda>s. (s\<lparr>trace := trace s @ [SetTimeout ms]\<rparr>, Inr ()))"

definition clearTimeout :: "unit io" where
  "clearTimeout = (\<lambda>s. (s\<lparr>trace := trace s @ [ClearTimeout]\<rparr>, Inr ()))"

text \<open>
  \<open>await fetch(url, {..., signal: controller.signal})\<close>. Called with a signal that has
  aborted, \<open>fetch\<close> rejects with an AbortError and sends nothing. Otherwise the request
  is pending: if the timer fires first, its callback aborts the controller and the
  promise rejects with an AbortError; if not, the promise settles as the network
  answers.
\<close>

definition await_fetch :: "fetch_mode \<Rightarrow> js_error + response \<Rightarrow> bool \<Rightarrow> response io" where
  "await_fetch mode answer fired =
     (\<lambda>s. if aborted s
          then (s\<lparr>trace := trace s @ [Fetch mode True]\<rparr>, Inl (JsError ''AbortError''))
          else if fired
          then (s\<lparr>trace := trace s @ [Fetch mode False, Abort], aborted := True\<rparr>,
                Inl (JsError ''AbortError''))
          else (s\<lparr>trace := trace s @ [Fetch mode False]\<rparr>, answer))"

section \<open>Template literals\<close>

definition digit_char :: "nat \<Rightarrow> char" where
  "digit_char d = ''0123456789'' ! d"

fun string_of_nat :: "nat \<Rightarrow> string" where
  "string_of_nat n =
     (if n < 10 then [digit_char n]
      else string_of_nat (n div 10) @ [digit_char (n mod 10)])"

declare string_of_nat.simps [simp del]

section \<open>checkTarget (script.js, lines 120-166)\<close>

definition checkTarget :: "probe_env \<Rightarrow> probe_result io" where
  "checkTarget env =
     bind_io new_AbortController (\<lambda>_.
     bind_io (setTimeout TIMEOUT_MS) (\<lambda>_.
     try_catch
       (bind_io (await_fetch ModeDefault (answer1 env) (fired1 env)) (\<lambda>res.
        let ms = minus_double (now1 env) (t0 env) in
        bind_io clearTimeout (\<lambda>_.
        if ok res
        then ret \<lparr>status = (if ms > 1200 then SLOW else UP), latencyMs = Some ms,
                  noteStr = ''HTTP '' @ string_of_nat (res_status res)\<rparr>
        else ret \<lparr>status = DOWN, latencyMs = Some ms,
                  noteStr = ''HTTP '' @ string_of_nat (res_status res)\<rparr>)))
       (\<lambda>err.
        try_catch
          (bind_io (await_fetch ModeNoCors (answer2 env) (fired2 env)) (\<lambda>res2.
           let ms2 = minus_double (now2 env) (t0 env) in
           bind_io clearTimeout (\<lambda>_.
           if res_type res2 = Opaque
           then ret \<lparr>status = (if ms2 > 1200 then SLOW else UP_OPAQUE), latencyMs = Some ms2,
                     noteStr = ''CORS blocked details''\<rparr>
           else ret \<lparr>status = (if ms2 > 1200 then SLOW else UP), latencyMs = Some ms2,
                     noteStr = ''OK''\<rparr>)))
          (\<lambda>err2.
           bind_io clearTimeout (\<lambda>_.
           let n = (if err_name err2 = ''AbortError'' then ''timeout'' else ''unreachable'')
           in ret \<lparr>status = DOWN, latencyMs = None, noteStr = n\<rparr>)))))"

text \<open>One call of \<open>checkTarget\<close> from an empty trace: what it returns, and what it did.\<close>

definition probe :: "probe_env \<Rightarrow> js_error + probe_result" where
  "probe env = snd (checkTarget env \<lparr>trace = [], aborted = False\<rparr>)"


text \<open>
  How the promise of the first request settles, and how that of the second settles
  when the first was rejected: with an AbortError if the timer has fired by then, as
  the network answers if not.
\<close>

definition fetch1 :: "probe_env \<Rightarrow> js_error + response" where
  "fetch1 env = (if fired1 env then Inl (JsError ''AbortError'') else answer1 env)"

definition fetch2 :: "probe_env \<Rightarrow> js_error + response" where
  "fetch2 env =
     (if fired1 env \<or> fired2 env then Inl (JsError ''AbortError'') else answer2 env)"

text \<open>
  The elapsed time that the returned object was classified on: the double that
  \<open>performance.now() - t0\<close> evaluates to, at line 135 or at line 152.
\<close>

definition elapsed :: "probe_env \<Rightarrow> real" where
  "elapsed env =
     (case fetch1 env of
        Inr _ \<Rightarrow> minus_double (now1 env) (t0 env)
      | Inl _ \<Rightarrow> minus_double (now2 env) (t0 env))"

text \<open>
  The outcomes that the script treats as a success: a first response whose \<open>ok\<close> flag is
  set, or, after a rejected first request, any second response.
\<close>

definition successful :: "probe_env \<Rightarrow> bool" where
  "successful env =
     (case fetch1 env of
        Inr res \<Rightarrow> ok res
      | Inl _ \<Rightarrow> (case fetch2 env of Inr _ \<Rightarrow> True | Inl _ \<Rightarrow> False))"

text \<open>A probe resolves when one of its two requests resolves.\<close>

definition resolved :: "probe_env \<Rightarrow> bool" where
  "resolved env =
     (case fetch1 env of
        Inr _ \<Rightarrow> True
      | Inl _ \<Rightarrow> (case fetch2 env of Inr _ \<Rightarrow> True | Inl _ \<Rightarrow> False))"

section \<open>render: the summary line (script.js, lines 80-89)\<close>

type_synonym store = "string \<rightharpoonup> state_entry"

record summary =
  up_count :: nat
  down_count :: nat
  checking_count :: nat

text \<open>
  The counters \<open>up\<close>, \<open>down\<close> and \<open>checking\<close> of \<open>render\<close>, and the body of its
  loop over \<open>TARGETS\<close> for one target.
\<close>

definition count_target :: "store \<Rightarrow> summary \<Rightarrow> target \<Rightarrow> summary" where
  "count_target st acc t =
     (case st (url t) of
        None \<Rightarrow> acc\<lparr>checking_count := checking_count acc + 1\<rparr>
      | Some s \<Rightarrow>
          if status s = UP \<or> status s = UP_OPAQUE then acc\<lparr>up_count := up_count acc + 1\<rparr>
          else if status s = DOWN then acc\<lparr>down_count := down_count acc + 1\<rparr>
          else acc\<lparr>checking_count := checking_count acc + 1\<rparr>)"

definition summary_of :: "target list \<Rightarrow> store \<Rightarrow> summary" where
  "summary_of targets st = foldl (count_target st) \<lparr>up_count = 0, down_count = 0, checking_count = 0\<rparr> targets"

section \<open>runChecks (script.js, lines 169-203)\<close>

text \<open>
  A worker is one call of the \<open>async\<close> arrow function at line 181. Between two awaits
  it runs without interruption, so it is observed in one of three places: suspended at
  \<open>await checkTarget(target.url)\<close> for the index and target it claimed, returned from
  the loop (its promise fulfilled), or stopped by an exception (its promise rejected).
\<close>

datatype worker = Awaiting nat target | Returned | Rejected js_error

text \<open>
  The cycle's state: the cursor \<open>i\<close>, the map \<open>state\<close>, the promises in \<open>workers\<close>, and
  what \<open>render\<close> last wrote to \<open>summaryText\<close>. \<open>claimed\<close> and \<open>completed\<close> are logs
  that the script does not keep: one pair (worker, index) for each execution of
  \<open>const idx = i++\<close>, and the index of each probe whose \<open>checkTarget\<close> has returned.
\<close>

record pool =
  cursor :: nat
  store :: store
  workers :: "worker list"
  claimed :: "(nat \<times> nat) list"
  completed :: "nat list"
  summaryText :: summary

definition render :: "target list \<Rightarrow> pool \<Rightarrow> pool" where
  "render targets p = p\<lparr>summaryText := summary_of targets (store p)\<rparr>"

definition checking_entry :: "nat \<Rightarrow> state_entry" where
  "checking_entry now = \<lparr>status = CHECKING, latencyMs = None, noteStr = [], lastChecked = now\<rparr>"

definition set_all_checking :: "target list \<Rightarrow> nat \<Rightarrow> store \<Rightarrow> store" where
  "set_all_checking targets now st = fold (\<lambda>t m. m(url t \<mapsto> checking_entry now)) targets st"

text \<open>
  Worker \<open>w\<close> from the test of the \<open>while\<close> loop to its next suspension: it claims the
  next index and calls \<open>checkTarget\<close>, or leaves the loop.
\<close>

definition loop_head :: "target list \<Rightarrow> nat \<Rightarrow> pool \<Rightarrow> pool \<times> worker" where
  "loop_head targets w p =
     (if cursor p < length targets
      then (p\<lparr>cursor := cursor p + 1, claimed := claimed p @ [(w, cursor p)]\<rparr>,
            Awaiting (cursor p) (targets ! cursor p))
      else (p, Returned))"

definition start_worker :: "target list \<Rightarrow> nat \<Rightarrow> pool \<Rightarrow> pool" where
  "start_worker targets w p =
     (case loop_head targets w p of (p', ws) \<Rightarrow> p'\<lparr>workers := workers p' @ [ws]\<rparr>)"

text \<open>
  \<open>runChecks\<close> up to \<open>await Promise.all(workers)\<close>: every entry set to CHECKING, one
  \<open>render\<close>, then \<open>Array.from\<close> calls the arrow function \<open>conc\<close> times, in order.
  The script passes \<open>TARGETS\<close> and \<open>CONCURRENCY\<close>. The calls of \<open>Date.now()\<close> in the
  first loop are read as one value \<open>now\<close>; the writes to \<open>lastRunEl\<close> and to the rows
  of the list are left out, since nothing reads them back.
\<close>

definition runChecks_begin :: "target list \<Rightarrow> nat \<Rightarrow> nat \<Rightarrow> store \<Rightarrow> pool" where
  "runChecks_begin targets conc now st =
     fold (start_worker targets) [0..<conc]
       (render targets
          \<lparr>cursor = 0, store = set_all_checking targets now st, workers = [], claimed = [],
           completed = [],
           summaryText = \<lparr>up_count = 0, down_count = 0, checking_count = 0\<rparr>\<rparr>)"

text \<open>
  An event is the completion of the probe that worker \<open>who\<close> is waiting for, at
  wall-clock time \<open>date_now\<close>. The worker stores the result, renders, and goes round
  the loop. An event for a worker that is not waiting does not happen. The probe of
  index \<open>idx\<close> meets the platform \<open>net idx\<close>; its two requests touch neither the
  cursor nor the map, so the whole probe is one step of the cycle.
\<close>

record event =
  who :: nat
  date_now :: nat

definition store_result :: "probe_result \<Rightarrow> nat \<Rightarrow> state_entry" where
  "store_result result now =
     \<lparr>status = status result, latencyMs = latencyMs result,
      noteStr = (if noteStr result \<noteq> [] then noteStr result else []),
      lastChecked = now\<rparr>"

definition resume ::
  "target list \<Rightarrow> (nat \<Rightarrow> probe_env) \<Rightarrow> event \<Rightarrow> pool \<Rightarrow> pool" where
  "resume targets net ev p =
     (if who ev < length (workers p) then
        (case workers p ! who ev of
           Awaiting idx tgt \<Rightarrow>
             (case probe (net idx) of
                Inl e \<Rightarrow> p\<lparr>workers := (workers p)[who ev := Rejected e]\<rparr>
              | Inr result \<Rightarrow>
                  (case loop_head targets (who ev)
                          (render targets
                             (p\<lparr>store := (store p)(url tgt \<mapsto> store_result result (date_now ev)),
                                completed := completed p @ [idx]\<rparr>))
                   of (p', ws) \<Rightarrow> p'\<lparr>workers := (workers p')[who ev := ws]\<rparr>))
         | Returned \<Rightarrow> p
         | Rejected e \<Rightarrow> p)
      else p)"

definition run_events ::
  "target list \<Rightarrow> (nat \<Rightarrow> probe_env) \<Rightarrow> event list \<Rightarrow> pool \<Rightarrow> pool" where
  "run_events targets net evs p = fold (resume targets net) evs p"

text \<open>The state of a cycle after the completions \<open>evs\<close>, in that order.\<close>

definition runChecks ::
  "target list \<Rightarrow> nat \<Rightarrow> (nat \<Rightarrow> probe_env) \<Rightarrow> nat \<Rightarrow> store \<Rightarrow> event list \<Rightarrow> pool" where
  "runChecks targets conc net now st evs =
     run_events targets net evs (runChecks_begin targets conc now st)"

text \<open>\<open>Promise.all(workers)\<close> is fulfilled when every worker has returned.\<close>

definition fulfilled :: "pool \<Rightarrow> bool" where
  "fulfilled p = list_all (\<lambda>w. w = Returned) (workers p)"

fun is_awaiting :: "worker \<Rightarrow> bool" where
  "is_awaiting (Awaiting idx tgt) = True"
| "is_awaiting Returned = False"
| "is_awaiting (Rejected e) = False"

text \<open>The probes in flight: the calls of \<open>checkTarget\<close> that have not returned yet.\<close>

definition in_flight :: "pool \<Rightarrow> nat" where
  "in_flight p = length (filter is_awaiting (workers p))"

text \<open>An event that can happen: its worker is waiting for a probe.\<close>

definition enabled :: "pool \<Rightarrow> event \<Rightarrow> bool" where
  "enabled p ev = (who ev < length (workers p) \<and> is_awaiting (workers p ! who ev))"

fun schedule_ok ::
  "target list \<Rightarrow> (nat \<Rightarrow> probe_env) \<Rightarrow> event list \<Rightarrow> pool \<Rightarrow> bool" where
  "schedule_ok targets net [] p = True"
| "schedule_ok targets net (ev # evs) p =
     (enabled p ev \<and> schedule_ok targets net evs (resume targets net ev p))"

section \<open>What holds throughout a cycle\<close>

text \<open>Index \<open>idx\<close> has a result: the entry of its target is there and is not CHECKING.\<close>

definition has_result :: "target list \<Rightarrow> pool \<Rightarrow> nat \<Rightarrow> bool" where
  "has_result targets p idx =
     (\<exists>e. store p (url (targets ! idx)) = Some e \<and> status e \<noteq> CHECKING)"

text \<open>
  The cursor stays within the list; the indexes were claimed in order, each once; no
  worker has been stopped by an exception; the probes started are those in flight and
  those completed; a worker returns only when the cursor is at the end; a waiting
  worker holds an index below the cursor and the target at that index; every index
  below the cursor is in flight or has a result; every target has an entry.
\<close>

definition pool_inv :: "target list \<Rightarrow> pool \<Rightarrow> bool" where
  "pool_inv targets p =
     (cursor p \<le> length targets \<and>
      map snd (claimed p) = [0..<cursor p] \<and>
      (\<forall>w \<in> set (workers p). \<forall>e. w \<noteq> Rejected e) \<and>
      in_flight p + length (completed p) = cursor p \<and>
      (Returned \<in> set (workers p) \<longrightarrow> cursor p = length targets) \<and>
      (\<forall>w idx tgt. w < length (workers p) \<and> workers p ! w = Awaiting idx tgt \<longrightarrow>
         idx < cursor p \<and> tgt = targets ! idx) \<and>
      (\<forall>idx < cursor p. Awaiting idx (targets ! idx) \<in> set (workers p) \<or>
         has_result targets p idx) \<and>
      (\<forall>t \<in> set targets. \<exists>e. store p (url t) = Some e))"

section \<open>The timer (script.js, lines 208-213)\<close>

text \<open>
  \<open>rnd k\<close> is what the \<open>k\<close>-th call of \<open>Math.random()\<close> returns, counted from 0: a
  double, at least 0 and below 1. The scheduler's state: the delay that \<open>setInterval\<close>
  was given, the number of calls of \<open>Math.random()\<close> so far, the number of cycles
  started, and the time since startup. \<open>Math.floor\<close> of a product that is not negative
  is its integer part, and adding it to \<open>REFRESH_EVERY_MS\<close> is exact.
\<close>

record scheduler =
  delay_ms :: nat
  random_calls :: nat
  cycles_started :: nat
  clock_ms :: nat

definition startup :: "(nat \<Rightarrow> real) \<Rightarrow> scheduler" where
  "startup rnd =
     \<lparr>delay_ms = REFRESH_EVERY_MS + nat \<lfloor>times_double (rnd 0) 1500\<rfloor>, random_calls = 1,
      cycles_started = 1, clock_ms = 0\<rparr>"

text \<open>The interval fires: \<open>delay_ms\<close> after the last firing, the callback calls \<open>runChecks\<close>.\<close>

definition fire :: "scheduler \<Rightarrow> scheduler" where
  "fire s = s\<lparr>cycles_started := cycles_started s + 1, clock_ms := clock_ms s + delay_ms s\<rparr>"

fun after_firings :: "(nat \<Rightarrow> real) \<Rightarrow> nat \<Rightarrow> scheduler" where
  "after_firings rnd 0 = startup rnd"
| "after_firings rnd (Suc k) = fire (after_firings rnd k)"

text \<open>The delay between firing \<open>k\<close> and firing \<open>k + 1\<close> (firing 0 is the startup).\<close>

definition firing_gap :: "(nat \<Rightarrow> real) \<Rightarrow> nat \<Rightarrow> nat" where
  "firing_gap rnd k = clock_ms (after_firings rnd (Suc k)) - clock_ms (after_firings rnd k)"

text \<open>
  The delay that a timer with a fresh jitter for each firing would leave before firing
  \<open>k + 1\<close>: it draws sample \<open>k\<close>. This is the behaviour that the specification
  describes, written down to be compared with \<open>firing_gap\<close>.
\<close>

definition spec_firing_gap :: "(nat \<Rightarrow> real) \<Rightarrow> nat \<Rightarrow> nat" where
  "spec_firing_gap rnd k = REFRESH_EVERY_MS + nat \<lfloor>times_double (rnd k) 1500\<rfloor>"

text \<open>
  Two generators: one whose first sample is 1/2 and whose later samples are 0, and one
  that always returns the double nearest to 1/3, which JavaScript prints as
  0.3333333333333333.
\<close>

definition two_samples :: "nat \<Rightarrow> real" where
  "two_samples k = (if k = 0 then 1 / 2 else 0)"

definition third_samples :: "nat \<Rightarrow> real" where
  "third_samples k = 6004799503160661 / 2 ^ 54"

section \<open>Concrete probes\<close>

text \<open>
  Scenarios A to D of the specification, and five more: a cross-origin block whose
  retry takes 1500ms, a retry that resolves with a readable 500 response, a target
  that refuses the connection, a readable 200 response after 1500ms, and a readable
  200 response between the readings 0.2 and 1200.2 of the clock (the doubles nearest
  to them). In scenario D the timer fires while the first request is pending.
\<close>

definition scenario_A :: probe_env where
  "scenario_A =
     \<lparr>t0 = 0, answer1 = Inr \<lparr>ok = True, res_status = 200, res_type = Cors\<rparr>, fired1 = False,
      now1 = 300, answer2 = Inl (JsError ''TypeError''), fired2 = False, now2 = 0\<rparr>"

definition scenario_B :: probe_env where
  "scenario_B =
     \<lparr>t0 = 0, answer1 = Inr \<lparr>ok = False, res_status = 500, res_type = Cors\<rparr>, fired1 = False,
      now1 = 50, answer2 = Inl (JsError ''TypeError''), fired2 = False, now2 = 0\<rparr>"

definition scenario_C :: probe_env where
  "scenario_C =
     \<lparr>t0 = 0, answer1 = Inl (JsError ''TypeError''), fired1 = False, now1 = 0,
      answer2 = Inr \<lparr>ok = False, res_status = 0, res_type = Opaque\<rparr>, fired2 = False,
      now2 = 400\<rparr>"

definition scenario_D :: probe_env where
  "scenario_D =
     \<lparr>t0 = 0, answer1 = Inl (JsError ''TypeError''), fired1 = True, now1 = 0,
      answer2 = Inl (JsError ''TypeError''), fired2 = False, now2 = 0\<rparr>"

definition slow_opaque :: probe_env where
  "slow_opaque =
     \<lparr>t0 = 10, answer1 = Inl (JsError ''TypeError''), fired1 = False, now1 = 0,
      answer2 = Inr \<lparr>ok = False, res_status = 0, res_type = Opaque\<rparr>, fired2 = False,
      now2 = 1510\<rparr>"

definition readable_retry :: probe_env where
  "readable_retry =
     \<lparr>t0 = 0, answer1 = Inl (JsError ''TypeError''), fired1 = False, now1 = 0,
      answer2 = Inr \<lparr>ok = False, res_status = 500, res_type = Basic\<rparr>, fired2 = False,
      now2 = 100\<rparr>"

definition refused :: probe_env where
  "refused =
     \<lparr>t0 = 0, answer1 = Inl (JsError ''TypeError''), fired1 = False, now1 = 0,
      answer2 = Inl (JsError ''TypeError''), fired2 = False, now2 = 0\<rparr>"

definition slow_ok :: probe_env where
  "slow_ok =
     \<lparr>t0 = 0, answer1 = Inr \<lparr>ok = True, res_status = 200, res_type = Cors\<rparr>, fired1 = False,
      now1 = 1500, answer2 = Inl (JsError ''TypeError''), fired2 = False, now2 = 0\<rparr>"

definition rounded_ok :: probe_env where
  "rounded_ok =
     \<lparr>t0 = 3602879701896397 / 2 ^ 54,
      answer1 = Inr \<lparr>ok = True, res_status = 200, res_type = Cors\<rparr>, fired1 = False,
      now1 = 5278535422627021 / 2 ^ 42,
      answer2 = Inl (JsError ''TypeError''), fired2 = False, now2 = 0\<rparr>"

section \<open>A concrete cycle\<close>

text \<open>
  Scenario E of the specification: five targets and two workers. The five probes end
  as scenarios A, B, C, D and as a 200 after 1500ms; \<open>five_events\<close> is the order in
  which they complete, and \<open>five_run k\<close> the cycle after the first \<open>k\<close> completions.
\<close>

definition five_targets :: "target list" where
  "five_targets =
     [\<lparr>name = ''a'', kind = ''WEBSITE'', url = ''https://a.example/''\<rparr>,
      \<lparr>name = ''b'', kind = ''WEBSITE'', url = ''https://b.example/''\<rparr>,
      \<lparr>name = ''c'', kind = ''WEBSITE'', url = ''https://c.example/''\<rparr>,
      \<lparr>name = ''d'', kind = ''SERVER'', url = ''http://10.0.0.4:8006''\<rparr>,
      \<lparr>name = ''e'', kind = ''SERVER'', url = ''http://10.0.0.5:8006''\<rparr>]"

definition five_probes :: "nat \<Rightarrow> probe_env" where
  "five_probes idx =
     (if idx = 0 then scenario_A else if idx = 1 then scenario_B
      else if idx = 2 then scenario_C else if idx = 3 then scenario_D else slow_ok)"

definition five_events :: "event list" where
  "five_events =
     [\<lparr>who = 1, date_now = 50\<rparr>, \<lparr>who = 0, date_now = 300\<rparr>, \<lparr>who = 1, date_now = 450\<rparr>,
      \<lparr>who = 1, date_now = 1950\<rparr>, \<lparr>who = 0, date_now = 8300\<rparr>]"

definition five_run :: "nat \<Rightarrow> pool" where
  "five_run k = runChecks five_targets 2 five_probes 0 Map.empty (take k five_events)"

text \<open>Two stores to render: one entry of each kind, and a single SLOW entry.\<close>

definition mixed_store :: store where
  "mixed_store =
     [''https://a.example/'' \<mapsto>
        \<lparr>status = UP, latencyMs = Some 300, noteStr = ''HTTP 200'', lastChecked = 300\<rparr>,
      ''https://b.example/'' \<mapsto>
        \<lparr>status = DOWN, latencyMs = Some 50, noteStr = ''HTTP 500'', lastChecked = 50\<rparr>,
      ''https://c.example/'' \<mapsto>
        \<lparr>status = UP_OPAQUE, latencyMs = Some 400, noteStr = ''CORS blocked details'',
         lastChecked = 450\<rparr>,
      ''http://10.0.0.4:8006'' \<mapsto>
        \<lparr>status = SLOW, latencyMs = Some 1500, noteStr = ''HTTP 200'', lastChecked = 1950\<rparr>]"

definition slow_store :: store where
  "slow_store =
     [''https://a.example/'' \<mapsto>
        \<lparr>status = SLOW, latencyMs = Some 1500, noteStr = ''HTTP 200'', lastChecked = 1500\<rparr>]"

section \<open>Rounding to a double\<close>

lemma round_half_even_int: "round_half_even (of_int m) = m"
  by (simp add: round_half_even_def)

lemma round_half_even_le: "y < of_int M + 1 / 2 \<Longrightarrow> round_half_even y \<le> M"
proof -
  assume a: "y < of_int M + 1 / 2"
  then have f: "\<lfloor>y\<rfloor> \<le> M" by linarith
  show ?thesis
  proof (cases "\<lfloor>y\<rfloor> = M")
    case True
    with a have "y - of_int \<lfloor>y\<rfloor> < 1 / 2" by simp
    then show ?thesis using True by (simp add: round_half_even_def)
  next
    case False
    with f have "\<lfloor>y\<rfloor> + 1 \<le> M" by simp
    then show ?thesis by (simp add: round_half_even_def)
  qed
qed

lemma round_half_even_near:
  "of_int M - 1 / 2 < y \<Longrightarrow> y < of_int M + 1 / 2 \<Longrightarrow> round_half_even y = M"
proof -
  assume a: "of_int M - 1 / 2 < y" "y < of_int M + 1 / 2"
  then consider "\<lfloor>y\<rfloor> = M" | "\<lfloor>y\<rfloor> = M - 1" by linarith
  then show ?thesis
  proof cases
    case 1
    with a have "y - of_int \<lfloor>y\<rfloor> < 1 / 2" by simp
    then show ?thesis using 1 by (simp add: round_half_even_def)
  next
    case 2
    with a have "1 / 2 < y - of_int \<lfloor>y\<rfloor>" by simp
    then show ?thesis using 2 by (simp add: round_half_even_def)
  qed
qed

lemma ulp_exponent_binade:
  assumes "2 powr of_int E \<le> \<bar>x\<bar>" "\<bar>x\<bar> < 2 powr of_int (E + 1)" "- 1022 \<le> E"
  shows "ulp_exponent x = E - 52"
proof -
  have "0 < \<bar>x\<bar>" using assms(1) by (smt (verit) powr_gt_zero)
  then have "\<lfloor>log 2 \<bar>x\<bar>\<rfloor> = E"
    using assms(1,2) by (simp add: floor_log_eq_powr_iff)
  then show ?thesis using assms(3) by (simp add: ulp_exponent_def)
qed

lemma round_double_binade:
  assumes "2 powr of_int E \<le> \<bar>x\<bar>" "\<bar>x\<bar> < 2 powr of_int (E + 1)" "- 1022 \<le> E"
  shows "round_double x =
    of_int (round_half_even (x / 2 powr of_int (E - 52))) * 2 powr of_int (E - 52)"
proof -
  have "x \<noteq> 0" using assms(1) by (smt (verit) powr_gt_zero)
  then show ?thesis by (simp add: round_double_def ulp_exponent_binade [OF assms])
qed


lemma two_powr_neg: "2 powr (- real j) = inverse (2 ^ j)"
  by (simp add: powr_minus powr_realpow)

lemma two_powr_diff: "2 powr (52 - real j) = 2 ^ 52 / 2 ^ j" "2 powr (53 - real j) = 2 ^ 53 / 2 ^ j"
proof -
  have "(2::real) powr (52 - real j) = 2 powr 52 / 2 powr real j" by (rule powr_diff)
  then show "2 powr (52 - real j) = 2 ^ 52 / 2 ^ j" by (simp add: powr_realpow)
  have "(2::real) powr (53 - real j) = 2 powr 53 / 2 powr real j" by (rule powr_diff)
  then show "2 powr (53 - real j) = 2 ^ 53 / 2 ^ j" by (simp add: powr_realpow)
qed

lemma round_double_scaled:
  assumes "2 ^ 52 \<le> \<bar>x\<bar> * 2 ^ j" "\<bar>x\<bar> * 2 ^ j < 2 ^ 53" "j \<le> 1074"
  shows "round_double x = of_int (round_half_even (x * 2 ^ j)) / 2 ^ j"
proof -
  have lo: "2 powr real_of_int (52 - int j) \<le> \<bar>x\<bar>"
    using assms(1) by (simp add: two_powr_diff field_simps)
  have hi: "\<bar>x\<bar> < 2 powr real_of_int (52 - int j + 1)"
    using assms(2) by (simp add: two_powr_diff field_simps)
  from round_double_binade [OF lo hi] assms(3)
  have "round_double x =
      of_int (round_half_even (x / 2 powr (- real j))) * 2 powr (- real j)"
    by simp
  then show ?thesis by (simp only: two_powr_neg) (simp add: field_simps)
qed

lemma floor_log_bounds:
  assumes "0 < x"
  shows "2 powr of_int \<lfloor>log 2 x\<rfloor> \<le> x" "x < 2 powr of_int (\<lfloor>log 2 x\<rfloor> + 1)"
  using floor_log_eq_powr_iff [of x 2 "\<lfloor>log 2 x\<rfloor>"] assms by simp_all

lemma round_double_exact_int:
  assumes "x \<in> \<int>" "\<bar>x\<bar> < 2 ^ 53"
  shows "round_double x = x"
proof (cases "x = 0")
  case True
  then show ?thesis by (simp add: round_double_def)
next
  case False
  from assms(1) obtain n where n: "x = of_int n" by (auto elim: Ints_cases)
  with False have "n \<noteq> 0" by auto
  then have one: "1 \<le> \<bar>x\<bar>" using n by (simp flip: of_int_abs)
  define E where "E = \<lfloor>log 2 \<bar>x\<bar>\<rfloor>"
  have lo: "2 powr of_int E \<le> \<bar>x\<bar>" and hi: "\<bar>x\<bar> < 2 powr of_int (E + 1)"
    using floor_log_bounds [of "\<bar>x\<bar>"] one by (simp_all add: E_def)
  have E0: "0 \<le> E"
  proof (rule ccontr)
    assume "\<not> 0 \<le> E"
    then have "real_of_int (E + 1) \<le> 0" by simp
    then have "2 powr of_int (E + 1) \<le> (2::real) powr 0" by (intro powr_mono) simp_all
    with hi one show False by simp
  qed
  have E52: "E \<le> 52"
  proof (rule ccontr)
    assume "\<not> E \<le> 52"
    then have "(53::real) \<le> of_int E" by simp
    then have "(2::real) powr 53 \<le> 2 powr of_int E" by (intro powr_mono) simp_all
    with lo assms(2) show False by simp
  qed
  define j where "j = nat (52 - E)"
  have E: "E = 52 - int j" using E52 by (simp add: j_def)
  have a: "2 ^ 52 \<le> \<bar>x\<bar> * 2 ^ j"
    using lo by (simp add: E two_powr_diff field_simps)
  have b: "\<bar>x\<bar> * 2 ^ j < 2 ^ 53"
    using hi by (simp add: E two_powr_diff field_simps)
  have c: "j \<le> 1074" using E0 by (simp add: j_def)
  have "x * 2 ^ j = of_int (n * 2 ^ j)" by (simp add: n)
  then have "round_half_even (x * 2 ^ j) = n * 2 ^ j"
    by (simp only: round_half_even_int)
  with round_double_scaled [OF a b c] show ?thesis by (simp add: n)
qed

lemma minus_double_rounded:
  "minus_double (5278535422627021 / 2 ^ 42) (3602879701896397 / 2 ^ 54) = 1200"
proof -
  let ?x = "5278535422627021 / 2 ^ 42 - 3602879701896397 / 2 ^ 54 :: real"
  have "round_double ?x = of_int (round_half_even (?x * 2 ^ 42)) / 2 ^ 42"
    by (rule round_double_scaled) simp_all
  moreover have "round_half_even (?x * 2 ^ 42) = 5277655813324800"
    by (rule round_half_even_near) simp_all
  ultimately show ?thesis by (simp add: minus_double_def)
qed

lemma times_double_third: "times_double (6004799503160661 / 2 ^ 54) 1500 = 500"
proof -
  let ?x = "6004799503160661 / 2 ^ 54 * 1500 :: real"
  have "round_double ?x = of_int (round_half_even (?x * 2 ^ 44)) / 2 ^ 44"
    by (rule round_double_scaled) simp_all
  moreover have "round_half_even (?x * 2 ^ 44) = 8796093022208000"
    by (rule round_half_even_near) simp_all
  ultimately show ?thesis by (simp add: times_double_def)
qed


lemma round_half_even_nonneg: "0 \<le> y \<Longrightarrow> 0 \<le> round_half_even y"
  by (simp add: round_half_even_def)

lemma round_double_nonneg: "0 \<le> x \<Longrightarrow> 0 \<le> round_double x"
  by (simp add: round_double_def round_half_even_nonneg)

lemma double_below_one:
  assumes "is_double r" "r < 1"
  shows "r \<le> 1 - 1 / 2 ^ 53"
proof (cases "r < 1 / 2")
  case True
  then show ?thesis by simp
next
  case False
  then have "round_double r = of_int (round_half_even (r * 2 ^ 53)) / 2 ^ 53"
    using assms(2) by (intro round_double_scaled) simp_all
  with assms(1) have r: "r = of_int (round_half_even (r * 2 ^ 53)) / 2 ^ 53"
    by (simp add: is_double_def)
  define k where "k = round_half_even (r * 2 ^ 53)"
  from r have rk: "r = of_int k / 2 ^ 53" by (simp add: k_def)
  with assms(2) have "real_of_int k < real_of_int (2 ^ 53)" by (simp add: field_simps)
  then have "k < 2 ^ 53" by (simp only: of_int_less_iff)
  then have "k \<le> 2 ^ 53 - 1" by simp
  then have "real_of_int k \<le> real_of_int (2 ^ 53 - 1)" by (simp only: of_int_le_iff)
  then have "real_of_int k \<le> 2 ^ 53 - 1" by simp
  then show ?thesis by (simp add: rk field_simps)
qed

lemma round_double_below_1024:
  assumes "0 < x" "x < 1024"
  shows "round_double x \<le> 1024"
proof -
  define E where "E = \<lfloor>log 2 x\<rfloor>"
  have lo: "2 powr of_int E \<le> x"
    using floor_log_bounds(1) [OF assms(1)] by (simp add: E_def)
  have E9: "E \<le> 9"
  proof (rule ccontr)
    assume "\<not> E \<le> 9"
    then have "(10::real) \<le> of_int E" by simp
    then have "(2::real) powr 10 \<le> 2 powr of_int E" by (intro powr_mono) simp_all
    with lo assms(2) show False by simp
  qed
  define j where "j = nat (- ulp_exponent x)"
  have "ulp_exponent x \<le> - 43"
    using E9 assms(1) by (simp add: ulp_exponent_def E_def)
  then have e: "ulp_exponent x = - int j" and j: "43 \<le> j" by (simp_all add: j_def)
  have rd: "round_double x = of_int (round_half_even (x * 2 ^ j)) / 2 ^ j"
    using assms(1) by (simp add: round_double_def e two_powr_neg field_simps)
  have a: "x * 2 ^ j < 1024 * 2 ^ j" using assms(2) by simp
  have b: "real_of_int (1024 * 2 ^ j) = 1024 * 2 ^ j" by simp
  have "x * 2 ^ j < real_of_int (1024 * 2 ^ j) + 1 / 2" unfolding b using a by linarith
  then have "round_half_even (x * 2 ^ j) \<le> 1024 * 2 ^ j" by (rule round_half_even_le)
  then have "real_of_int (round_half_even (x * 2 ^ j)) \<le> real_of_int (1024 * 2 ^ j)"
    by (simp only: of_int_le_iff)
  then show ?thesis by (simp add: rd field_simps)
qed

lemma times_1500_below:
  assumes "is_double r" "0 \<le> r" "r < 1"
  shows "times_double r 1500 < 1500"
proof -
  let ?x = "r * 1500"
  have r: "r \<le> 1 - 1 / 2 ^ 53" using assms(1,3) by (rule double_below_one)
  consider "?x = 0" | "0 < ?x" "?x < 1024" | "1024 \<le> ?x" using assms(2) by fastforce
  then have "round_double ?x < 1500"
  proof cases
    case 1
    then show ?thesis by (simp add: round_double_def)
  next
    case 2
    then have "round_double ?x \<le> 1024" by (rule round_double_below_1024)
    then show ?thesis by simp
  next
    case 3
    have "round_double ?x = of_int (round_half_even (?x * 2 ^ 42)) / 2 ^ 42"
      using 3 assms(3) by (intro round_double_scaled) simp_all
    moreover have "?x * 2 ^ 42 < real_of_int (1500 * 2 ^ 42 - 1) + 1 / 2"
      using r by simp
    then have "round_half_even (?x * 2 ^ 42) \<le> 1500 * 2 ^ 42 - 1"
      by (rule round_half_even_le)
    then have "real_of_int (round_half_even (?x * 2 ^ 42)) \<le> real_of_int (1500 * 2 ^ 42 - 1)"
      by (simp only: of_int_le_iff)
    ultimately show ?thesis by (simp add: field_simps)
  qed
  then show ?thesis by (simp add: times_double_def)
qed

lemma floor_times_1500_below:
  assumes "is_double r" "0 \<le> r" "r < 1"
  shows "nat \<lfloor>times_double r 1500\<rfloor> < 1500"
proof -
  have "\<lfloor>times_double r 1500\<rfloor> < 1500"
    using times_1500_below [OF assms] by linarith
  then show ?thesis by linarith
qed

lemma half_is_double: "is_double (1 / 2)"
proof -
  have "round_double (1 / 2) = of_int (round_half_even (1 / 2 * 2 ^ 53)) / 2 ^ 53"
    by (rule round_double_scaled) simp_all
  moreover have "round_half_even (1 / 2 * 2 ^ 53) = 2 ^ 52"
    by (rule round_half_even_near) simp_all
  ultimately show ?thesis by (simp add: is_double_def)
qed

lemma third_is_double: "is_double (6004799503160661 / 2 ^ 54)"
proof -
  let ?x = "6004799503160661 / 2 ^ 54 :: real"
  have "round_double ?x = of_int (round_half_even (?x * 2 ^ 54)) / 2 ^ 54"
    by (rule round_double_scaled) simp_all
  moreover have "round_half_even (?x * 2 ^ 54) = 6004799503160661"
    by (rule round_half_even_near) simp_all
  ultimately show ?thesis by (simp add: is_double_def)
qed


lemma reading_doubles:
  "is_double (3602879701896397 / 2 ^ 54)" "is_double (5278535422627021 / 2 ^ 42)"
proof -
  let ?a = "3602879701896397 / 2 ^ 54 :: real"
  have "round_double ?a = of_int (round_half_even (?a * 2 ^ 55)) / 2 ^ 55"
    by (rule round_double_scaled) simp_all
  moreover have "round_half_even (?a * 2 ^ 55) = 7205759403792794"
    by (rule round_half_even_near) simp_all
  ultimately show "is_double ?a" by (simp add: is_double_def)
  let ?b = "5278535422627021 / 2 ^ 42 :: real"
  have "round_double ?b = of_int (round_half_even (?b * 2 ^ 42)) / 2 ^ 42"
    by (rule round_double_scaled) simp_all
  moreover have "round_half_even (?b * 2 ^ 42) = 5278535422627021"
    by (rule round_half_even_near) simp_all
  ultimately show "is_double ?b" by (simp add: is_double_def)
qed

lemma minus_double_exact:
  "a - b \<in> \<int> \<Longrightarrow> \<bar>a - b\<bar> < 2 ^ 53 \<Longrightarrow> minus_double a b = a - b"
  by (simp add: minus_double_def round_double_exact_int)

lemma times_double_exact:
  "a * b \<in> \<int> \<Longrightarrow> \<bar>a * b\<bar> < 2 ^ 53 \<Longrightarrow> times_double a b = a * b"
  by (simp add: times_double_def round_double_exact_int)

section \<open>The value of a probe, case by case\<close>

lemmas io_defs = ret_def bind_io_def try_catch_def new_AbortController_def setTimeout_def
  clearTimeout_def await_fetch_def

lemma probe_cases:
  obtains
    (first) res where "fetch1 env = Inr res"
  | (second) err res2 where "fetch1 env = Inl err" "fetch2 env = Inr res2"
  | (failed) err err2 where "fetch1 env = Inl err" "fetch2 env = Inl err2"
  by (cases "fetch1 env"; cases "fetch2 env") auto

lemma probe_resolved1:
  "fetch1 env = Inr res \<Longrightarrow>
   probe env =
     Inr \<lparr>status = (if ok res then (if minus_double (now1 env) (t0 env) > 1200 then SLOW else UP)
                     else DOWN),
          latencyMs = Some (minus_double (now1 env) (t0 env)),
          noteStr = ''HTTP '' @ string_of_nat (res_status res)\<rparr>"
  by (cases "fired1 env")
     (simp_all add: probe_def checkTarget_def io_defs fetch1_def Let_def)

lemma probe_resolved2:
  "fetch1 env = Inl err \<Longrightarrow> fetch2 env = Inr res2 \<Longrightarrow>
   probe env =
     Inr \<lparr>status = (if minus_double (now2 env) (t0 env) > 1200 then SLOW
                     else if res_type res2 = Opaque then UP_OPAQUE else UP),
          latencyMs = Some (minus_double (now2 env) (t0 env)),
          noteStr = (if res_type res2 = Opaque then ''CORS blocked details'' else ''OK'')\<rparr>"
  by (cases "fired1 env"; cases "fired2 env")
     (simp_all add: probe_def checkTarget_def io_defs fetch1_def fetch2_def Let_def)

lemma probe_rejected:
  "fetch1 env = Inl err \<Longrightarrow> fetch2 env = Inl err2 \<Longrightarrow>
   probe env =
     Inr \<lparr>status = DOWN, latencyMs = None,
          noteStr = (if err_name err2 = ''AbortError'' then ''timeout'' else ''unreachable'')\<rparr>"
  by (cases "fired1 env"; cases "fired2 env")
     (auto simp: probe_def checkTarget_def io_defs fetch1_def fetch2_def Let_def)

lemma probe_value:
  "probe env =
     (case fetch1 env of
        Inr res \<Rightarrow>
          Inr \<lparr>status = (if ok res
                         then (if minus_double (now1 env) (t0 env) > 1200 then SLOW else UP)
                         else DOWN),
               latencyMs = Some (minus_double (now1 env) (t0 env)),
               noteStr = ''HTTP '' @ string_of_nat (res_status res)\<rparr>
      | Inl err \<Rightarrow>
          (case fetch2 env of
             Inr res2 \<Rightarrow>
               Inr \<lparr>status = (if minus_double (now2 env) (t0 env) > 1200 then SLOW
                              else if res_type res2 = Opaque then UP_OPAQUE else UP),
                    latencyMs = Some (minus_double (now2 env) (t0 env)),
                    noteStr = (if res_type res2 = Opaque then ''CORS blocked details'' else ''OK'')\<rparr>
           | Inl err2 \<Rightarrow>
               Inr \<lparr>status = DOWN, latencyMs = None,
                    noteStr = (if err_name err2 = ''AbortError'' then ''timeout'' else ''unreachable'')\<rparr>))"
  by (cases env rule: probe_cases)
     (simp_all add: probe_resolved1 probe_resolved2 probe_rejected)


lemma string_of_nat_200: "string_of_nat 200 = ''200''"
  by (simp add: string_of_nat.simps digit_char_def)

lemma string_of_nat_500: "string_of_nat 500 = ''500''"
  by (simp add: string_of_nat.simps digit_char_def)

section \<open>The 1200ms threshold\<close>

text \<open>
  C1, as amended. Let a probe return \<open>r\<close>. If one of its requests resolved, the latency
  of \<open>r\<close> is the time elapsed since \<open>t0\<close> as the script computes it, the double
  \<open>performance.now() - t0\<close>, across both phases; and with an elapsed time of at most
  1200ms the status of \<open>r\<close> is never SLOW. If the outcome is a success (a first
  response with \<open>ok\<close> set, or any second response), the status is UP or UP_OPAQUE up
  to 1200ms and SLOW beyond. A probe that resolved without success, that is with a
  readable response without \<open>ok\<close>, is DOWN whatever the elapsed time.
\<close>

theorem threshold_law:
  "probe env = Inr r \<Longrightarrow>
     (resolved env \<longrightarrow> latencyMs r = Some (elapsed env)) \<and>
     (resolved env \<and> elapsed env \<le> 1200 \<longrightarrow> status r \<noteq> SLOW) \<and>
     (successful env \<and> elapsed env \<le> 1200 \<longrightarrow> status r = UP \<or> status r = UP_OPAQUE) \<and>
     (successful env \<and> 1200 < elapsed env \<longrightarrow> status r = SLOW) \<and>
     (resolved env \<and> \<not> successful env \<longrightarrow> status r = DOWN)"
  by (cases env rule: probe_cases)
     (auto simp: probe_value resolved_def successful_def elapsed_def split: if_splits)

text \<open>
  The law at scenario A (200 after 300ms), at a blocked request retried in 1500ms, and
  at a 200 between the clock readings 0.2 and 1200.2: the two doubles differ by more
  than 1200, their difference as a double is 1200, and the probe is UP.
\<close>

theorem threshold_law_witness:
  "probe scenario_A = Inr \<lparr>status = UP, latencyMs = Some 300, noteStr = ''HTTP 200''\<rparr> \<and>
   successful scenario_A \<and> elapsed scenario_A \<le> 1200 \<and>
   probe slow_opaque =
     Inr \<lparr>status = SLOW, latencyMs = Some 1500, noteStr = ''CORS blocked details''\<rparr> \<and>
   successful slow_opaque \<and> 1200 < elapsed slow_opaque \<and>
   probe rounded_ok = Inr \<lparr>status = UP, latencyMs = Some 1200, noteStr = ''HTTP 200''\<rparr> \<and>
   is_double (t0 rounded_ok) \<and> is_double (now1 rounded_ok) \<and>
   1200 < now1 rounded_ok - t0 rounded_ok \<and> elapsed rounded_ok = 1200"
proof -
  have a: "probe scenario_A = Inr \<lparr>status = UP, latencyMs = Some 300, noteStr = ''HTTP 200''\<rparr>"
    by (simp add: probe_value fetch1_def scenario_A_def string_of_nat_200 minus_double_exact)
  have b: "probe slow_opaque =
    Inr \<lparr>status = SLOW, latencyMs = Some 1500, noteStr = ''CORS blocked details''\<rparr>"
    by (simp add: probe_value fetch1_def fetch2_def slow_opaque_def minus_double_exact)
  have c: "successful scenario_A" "elapsed scenario_A \<le> 1200"
    by (simp_all add: successful_def elapsed_def fetch1_def scenario_A_def minus_double_exact)
  have d: "successful slow_opaque" "1200 < elapsed slow_opaque"
    by (simp_all add: successful_def elapsed_def fetch1_def fetch2_def slow_opaque_def
        minus_double_exact)
  have e: "probe rounded_ok = Inr \<lparr>status = UP, latencyMs = Some 1200, noteStr = ''HTTP 200''\<rparr>"
    using minus_double_rounded
    by (simp add: probe_value fetch1_def rounded_ok_def string_of_nat_200)
  have f: "successful rounded_ok" "elapsed rounded_ok = 1200"
    using minus_double_rounded
    by (simp_all add: successful_def elapsed_def fetch1_def rounded_ok_def)
  have g: "is_double (t0 rounded_ok)" "is_double (now1 rounded_ok)"
    "1200 < now1 rounded_ok - t0 rounded_ok"
    using reading_doubles by (simp_all add: rounded_ok_def)
  from threshold_law [OF a] threshold_law [OF b] threshold_law [OF e] a b c d e f g
  show ?thesis by simp
qed

text \<open>
  Scenario B resolves after 50ms with a readable status 500: a resolved probe under
  1200ms whose classification is DOWN, neither UP nor UP_OPAQUE.
\<close>

theorem threshold_counterexample:
  "resolved scenario_B \<and> elapsed scenario_B \<le> 1200 \<and>
   probe scenario_B = Inr \<lparr>status = DOWN, latencyMs = Some 50, noteStr = ''HTTP 500''\<rparr>"
  by (simp add: probe_value fetch1_def scenario_B_def resolved_def elapsed_def
      string_of_nat_500 minus_double_exact)

section \<open>Presence of the latency\<close>

text \<open>
  C2. In the result \<open>r\<close> of a probe the latency is present exactly when the status is
  UP, UP_OPAQUE or SLOW, or DOWN from a readable response without \<open>ok\<close>; it is absent
  exactly when the status is DOWN with note "timeout" or "unreachable". A probe never
  returns CHECKING, the entry stored by \<open>runChecks\<close> keeps the status and the latency of
  the result, and the CHECKING entry written at the start of a cycle has no latency.
\<close>

theorem latency_presence:
  "probe env = Inr r \<Longrightarrow>
     ((latencyMs r \<noteq> None) =
        (status r = UP \<or> status r = UP_OPAQUE \<or> status r = SLOW \<or>
         (status r = DOWN \<and> (\<exists>res. fetch1 env = Inr res \<and> \<not> ok res)))) \<and>
     ((latencyMs r = None) =
        (status r = DOWN \<and> (noteStr r = ''timeout'' \<or> noteStr r = ''unreachable''))) \<and>
     status r \<noteq> CHECKING \<and>
     latencyMs (store_result r now) = latencyMs r \<and>
     status (store_result r now) = status r \<and>
     status (checking_entry now) = CHECKING \<and> latencyMs (checking_entry now) = None"
  by (cases env rule: probe_cases)
     (auto simp: probe_value store_result_def checking_entry_def split: if_splits)

text \<open>The four kinds of result: DOWN with and without a latency, and UP_OPAQUE.\<close>

theorem latency_presence_witness:
  "probe scenario_B = Inr \<lparr>status = DOWN, latencyMs = Some 50, noteStr = ''HTTP 500''\<rparr> \<and>
   probe scenario_D = Inr \<lparr>status = DOWN, latencyMs = None, noteStr = ''timeout''\<rparr> \<and>
   probe refused = Inr \<lparr>status = DOWN, latencyMs = None, noteStr = ''unreachable''\<rparr> \<and>
   probe scenario_C =
     Inr \<lparr>status = UP_OPAQUE, latencyMs = Some 400, noteStr = ''CORS blocked details''\<rparr>"
proof -
  have b: "probe scenario_B = Inr \<lparr>status = DOWN, latencyMs = Some 50, noteStr = ''HTTP 500''\<rparr>"
    by (simp add: probe_value fetch1_def scenario_B_def string_of_nat_500 minus_double_exact)
  have d: "probe scenario_D = Inr \<lparr>status = DOWN, latencyMs = None, noteStr = ''timeout''\<rparr>"
    by (simp add: probe_value fetch1_def fetch2_def scenario_D_def)
  have r: "probe refused = Inr \<lparr>status = DOWN, latencyMs = None, noteStr = ''unreachable''\<rparr>"
    by (simp add: probe_value fetch1_def fetch2_def refused_def)
  have c: "probe scenario_C =
    Inr \<lparr>status = UP_OPAQUE, latencyMs = Some 400, noteStr = ''CORS blocked details''\<rparr>"
    by (simp add: probe_value fetch1_def fetch2_def scenario_C_def minus_double_exact)
  from latency_presence [OF b, of 0] latency_presence [OF d, of 0]
    latency_presence [OF r, of 0] latency_presence [OF c, of 0] b d r c
  show ?thesis by simp
qed

section \<open>A deadline that fires during the first request\<close>




section \<open>No failure leaves checkTarget\<close>

text \<open>
  C4. Whatever the two requests do, \<open>checkTarget\<close> returns a result and throws nothing.
  The status of the result is UP, UP_OPAQUE, SLOW or DOWN, and each failure is written
  in it: a readable response without \<open>ok\<close> is DOWN with the status code as note, a
  blocked request whose retry is opaque is UP_OPAQUE or SLOW with note "CORS blocked
  details", a retry rejected with an AbortError is DOWN with note "timeout", and a
  retry rejected with any other error is DOWN with note "unreachable".
\<close>

theorem checkTarget_never_throws:
  "\<exists>r. probe env = Inr r \<and>
     (status r = UP \<or> status r = UP_OPAQUE \<or> status r = SLOW \<or> status r = DOWN) \<and>
     (\<forall>res. fetch1 env = Inr res \<and> \<not> ok res \<longrightarrow>
        status r = DOWN \<and> noteStr r = ''HTTP '' @ string_of_nat (res_status res)) \<and>
     (\<forall>err res2. fetch1 env = Inl err \<and> fetch2 env = Inr res2 \<and> res_type res2 = Opaque \<longrightarrow>
        (status r = UP_OPAQUE \<or> status r = SLOW) \<and> noteStr r = ''CORS blocked details'') \<and>
     (\<forall>err err2. fetch1 env = Inl err \<and> fetch2 env = Inl err2 \<and>
        err_name err2 = ''AbortError'' \<longrightarrow>
        status r = DOWN \<and> noteStr r = ''timeout'') \<and>
     (\<forall>err err2. fetch1 env = Inl err \<and> fetch2 env = Inl err2 \<and>
        err_name err2 \<noteq> ''AbortError'' \<longrightarrow>
        status r = DOWN \<and> noteStr r = ''unreachable'')"
  by (cases env rule: probe_cases) (auto simp: probe_value)

text \<open>One probe for each of the four failures.\<close>

theorem checkTarget_never_throws_witness:
  "probe scenario_B = Inr \<lparr>status = DOWN, latencyMs = Some 50, noteStr = ''HTTP 500''\<rparr> \<and>
   probe scenario_C =
     Inr \<lparr>status = UP_OPAQUE, latencyMs = Some 400, noteStr = ''CORS blocked details''\<rparr> \<and>
   probe scenario_D = Inr \<lparr>status = DOWN, latencyMs = None, noteStr = ''timeout''\<rparr> \<and>
   probe refused = Inr \<lparr>status = DOWN, latencyMs = None, noteStr = ''unreachable''\<rparr>"
  using checkTarget_never_throws [of scenario_B] checkTarget_never_throws [of scenario_C]
    checkTarget_never_throws [of scenario_D] checkTarget_never_throws [of refused]
  by (simp add: probe_value fetch1_def fetch2_def scenario_B_def scenario_C_def scenario_D_def
      refused_def string_of_nat_500 minus_double_exact)

section \<open>A readable answer to the second request\<close>

text \<open>
  C9. When the first request is rejected, for the deadline or for any other reason,
  and the second resolves with a response that is not opaque, the result is UP, or SLOW
  past 1200ms, with note "OK": neither the status code nor the \<open>ok\<close> flag of that
  response is read, and the result is never DOWN.
\<close>

theorem readable_retry_is_up:
  "fetch1 env = Inl err \<Longrightarrow> fetch2 env = Inr res2 \<Longrightarrow> res_type res2 \<noteq> Opaque \<Longrightarrow>
     probe env =
       Inr \<lparr>status = (if minus_double (now2 env) (t0 env) > 1200 then SLOW else UP),
            latencyMs = Some (minus_double (now2 env) (t0 env)), noteStr = ''OK''\<rparr>"
  by (simp add: probe_value)

text \<open>A retry answered with a readable status 500 after 100ms is UP.\<close>

theorem readable_retry_is_up_witness:
  "fetch1 readable_retry = Inl (JsError ''TypeError'') \<and>
   fetch2 readable_retry = Inr \<lparr>ok = False, res_status = 500, res_type = Basic\<rparr> \<and>
   probe readable_retry = Inr \<lparr>status = UP, latencyMs = Some 100, noteStr = ''OK''\<rparr>"
proof -
  have a: "fetch1 readable_retry = Inl (JsError ''TypeError'')"
    by (simp add: fetch1_def readable_retry_def)
  have b: "fetch2 readable_retry = Inr \<lparr>ok = False, res_status = 500, res_type = Basic\<rparr>"
    by (simp add: fetch2_def readable_retry_def)
  have c: "minus_double (now2 readable_retry) (t0 readable_retry) = 100"
    by (simp add: readable_retry_def minus_double_exact)
  from readable_retry_is_up [OF a b] a b c show ?thesis by simp
qed

section \<open>One step of a cycle\<close>

lemma probe_total: "\<exists>r. probe env = Inr r \<and> status r \<noteq> CHECKING"
  by (cases env rule: probe_cases) (auto simp: probe_value)

lemma resume_disabled: "\<not> enabled p ev \<Longrightarrow> resume targets net ev p = p"
  by (cases "workers p ! who ev") (auto simp: resume_def enabled_def)

lemma resume_enabled:
  assumes "who ev < length (workers p)" "workers p ! who ev = Awaiting idx tgt"
    "probe (net idx) = Inr r"
  shows "resume targets net ev p =
    (if cursor p < length targets then
       p\<lparr>store := (store p)(url tgt \<mapsto> store_result r (date_now ev)),
         completed := completed p @ [idx],
         summaryText := summary_of targets ((store p)(url tgt \<mapsto> store_result r (date_now ev))),
         cursor := cursor p + 1, claimed := claimed p @ [(who ev, cursor p)],
         workers := (workers p)[who ev := Awaiting (cursor p) (targets ! cursor p)]\<rparr>
     else
       p\<lparr>store := (store p)(url tgt \<mapsto> store_result r (date_now ev)),
         completed := completed p @ [idx],
         summaryText := summary_of targets ((store p)(url tgt \<mapsto> store_result r (date_now ev))),
         workers := (workers p)[who ev := Returned]\<rparr>)"
  using assms by (simp add: resume_def loop_head_def render_def)

lemma start_worker_eq:
  "start_worker targets w p =
     (if cursor p < length targets then
        p\<lparr>cursor := cursor p + 1, claimed := claimed p @ [(w, cursor p)],
          workers := workers p @ [Awaiting (cursor p) (targets ! cursor p)]\<rparr>
      else p\<lparr>workers := workers p @ [Returned]\<rparr>)"
  by (simp add: start_worker_def loop_head_def)

lemma filter_update_length:
  "i < length xs \<Longrightarrow>
   length (filter P (xs[i := y])) + (if P (xs ! i) then 1 else 0) =
   length (filter P xs) + (if P y then 1 else 0)"
proof (induction xs arbitrary: i)
  case Nil
  then show ?case by simp
next
  case (Cons x xs)
  then show ?case by (cases i) auto
qed


section \<open>The invariant of a cycle\<close>

lemma set_all_checking_entry:
  "t \<in> set targets \<or> (\<exists>e. st (url t) = Some e) \<Longrightarrow>
   \<exists>e. set_all_checking targets now st (url t) = Some e"
  unfolding set_all_checking_def
  by (induction targets arbitrary: st) auto

lemma pool_inv_initial:
  "pool_inv targets
     (render targets
        \<lparr>cursor = 0, store = set_all_checking targets now st, workers = [], claimed = [],
         completed = [], summaryText = s0\<rparr>)"
  by (simp add: pool_inv_def render_def in_flight_def set_all_checking_entry)

lemma pool_inv_start_worker:
  assumes "pool_inv targets p"
  shows "pool_inv targets (start_worker targets w p)"
proof (cases "cursor p < length targets")
  case True
  from assms True show ?thesis
    unfolding pool_inv_def start_worker_eq
    by (auto simp: in_flight_def has_result_def nth_append less_Suc_eq)
next
  case False
  from assms False show ?thesis
    unfolding pool_inv_def start_worker_eq
    by (auto simp: in_flight_def has_result_def nth_append)
qed


lemma in_flight_update:
  assumes "i < length (workers p)" "is_awaiting (workers p ! i)"
  shows "in_flight (p\<lparr>workers := (workers p)[i := w]\<rparr>) + 1 =
         in_flight p + (if is_awaiting w then 1 else 0)"
  using filter_update_length [of i "workers p" is_awaiting w] assms
  by (simp add: in_flight_def)

lemma mem_update_cases:
  assumes "x \<in> set xs" "i < length xs"
  shows "x \<in> set (xs[i := y]) \<or> xs ! i = x"
proof -
  from assms(1) obtain j where j: "j < length xs" "xs ! j = x"
    by (auto simp: in_set_conv_nth)
  show ?thesis
  proof (cases "j = i")
    case True
    with j show ?thesis by simp
  next
    case False
    with j have "xs[i := y] ! j = x" by simp
    with j have "x \<in> set (xs[i := y])"
      by (metis length_list_update nth_mem)
    then show ?thesis by simp
  qed
qed

lemma has_result_store:
  assumes "has_result targets p idx \<or> url (targets ! idx) = u" "status e \<noteq> CHECKING"
  shows "has_result targets (p\<lparr>store := (store p)(u \<mapsto> e), completed := c,
           summaryText := sm, cursor := k, claimed := cl, workers := ws\<rparr>) idx"
    and "has_result targets (p\<lparr>store := (store p)(u \<mapsto> e), completed := c,
           summaryText := sm, workers := ws\<rparr>) idx"
  using assms by (auto simp: has_result_def)

lemma pool_inv_resume:
  assumes inv: "pool_inv targets p"
  shows "pool_inv targets (resume targets net ev p)"
proof (cases "enabled p ev")
  case False
  with inv show ?thesis by (simp add: resume_disabled)
next
  case True
  let ?i = "who ev"
  from True have i: "?i < length (workers p)" and aw: "is_awaiting (workers p ! ?i)"
    by (simp_all add: enabled_def)
  from aw obtain idx tgt where w: "workers p ! ?i = Awaiting idx tgt"
    by (cases "workers p ! ?i") auto
  obtain r where r: "probe (net idx) = Inr r" and rs: "status r \<noteq> CHECKING"
    using probe_total by blast
  let ?e = "store_result r (date_now ev)"
  have es: "status ?e \<noteq> CHECKING" using rs by (simp add: store_result_def)
  from inv have c: "cursor p \<le> length targets"
    and cl: "map snd (claimed p) = [0..<cursor p]"
    and nr: "\<forall>w \<in> set (workers p). \<forall>e. w \<noteq> Rejected e"
    and fl: "in_flight p + length (completed p) = cursor p"
    and rt: "Returned \<in> set (workers p) \<longrightarrow> cursor p = length targets"
    and aw_ok: "\<forall>w idx tgt. w < length (workers p) \<and> workers p ! w = Awaiting idx tgt \<longrightarrow>
         idx < cursor p \<and> tgt = targets ! idx"
    and cov: "\<forall>idx < cursor p. Awaiting idx (targets ! idx) \<in> set (workers p) \<or>
         has_result targets p idx"
    and ent: "\<forall>t \<in> set targets. \<exists>e. store p (url t) = Some e"
    by (simp_all add: pool_inv_def)
  from aw_ok i w have idx: "idx < cursor p" and tgt: "tgt = targets ! idx" by blast+
  show ?thesis
  proof (cases "cursor p < length targets")
    case claim: True
    let ?ws = "(workers p)[?i := Awaiting (cursor p) (targets ! cursor p)]"
    let ?p = "p\<lparr>store := (store p)(url tgt \<mapsto> ?e),
         completed := completed p @ [idx],
         summaryText := summary_of targets ((store p)(url tgt \<mapsto> ?e)),
         cursor := cursor p + 1, claimed := claimed p @ [(?i, cursor p)],
         workers := ?ws\<rparr>"
    have eq: "resume targets net ev p = ?p"
      using resume_enabled [where net = net and targets = targets, OF i w r] claim by simp
    have 1: "cursor ?p \<le> length targets" using claim by simp
    have 2: "map snd (claimed ?p) = [0..<cursor ?p]" using cl by simp
    have 3: "\<forall>w \<in> set (workers ?p). \<forall>e. w \<noteq> Rejected e"
      using nr set_update_subset_insert [of "workers p" ?i] by auto
    have 4: "in_flight ?p + length (completed ?p) = cursor ?p"
      using in_flight_update [OF i aw, of "Awaiting (cursor p) (targets ! cursor p)"] fl
      by (simp add: in_flight_def)
    have 5: "Returned \<in> set (workers ?p) \<longrightarrow> cursor ?p = length targets"
      using rt claim set_update_subset_insert [of "workers p" ?i] by auto
    have 6: "\<forall>w idx tgt. w < length (workers ?p) \<and> workers ?p ! w = Awaiting idx tgt \<longrightarrow>
         idx < cursor ?p \<and> tgt = targets ! idx"
    proof (intro allI impI)
      fix w j t
      assume a: "w < length (workers ?p) \<and> workers ?p ! w = Awaiting j t"
      show "j < cursor ?p \<and> t = targets ! j"
      proof (cases "w = ?i")
        case True
        with a i show ?thesis by auto
      next
        case False
        with a have "w < length (workers p) \<and> workers p ! w = Awaiting j t" by simp
        with aw_ok have "j < cursor p \<and> t = targets ! j" by blast
        then show ?thesis by simp
      qed
    qed
    have 7: "\<forall>j < cursor ?p. Awaiting j (targets ! j) \<in> set (workers ?p) \<or>
         has_result targets ?p j"
    proof (intro allI impI)
      fix j assume "j < cursor ?p"
      then consider "j = cursor p" | "j < cursor p" by force
      then show "Awaiting j (targets ! j) \<in> set (workers ?p) \<or> has_result targets ?p j"
      proof cases
        case 1
        then show ?thesis using i by (simp add: set_update_memI)
      next
        case 2
        with cov have "Awaiting j (targets ! j) \<in> set (workers p) \<or> has_result targets p j"
          by blast
        then show ?thesis
        proof
          assume "Awaiting j (targets ! j) \<in> set (workers p)"
          from mem_update_cases [OF this i]
          have "Awaiting j (targets ! j) \<in> set ?ws \<or> workers p ! ?i = Awaiting j (targets ! j)" .
          then show ?thesis
          proof
            assume "Awaiting j (targets ! j) \<in> set ?ws"
            then show ?thesis by simp
          next
            assume "workers p ! ?i = Awaiting j (targets ! j)"
            with w have "url (targets ! j) = url tgt" by auto
            then show ?thesis using has_result_store(1) [OF _ es] by blast
          qed
        next
          assume "has_result targets p j"
          then show ?thesis using has_result_store(1) [OF _ es] by blast
        qed
      qed
    qed
    have 8: "\<forall>t \<in> set targets. \<exists>e. store ?p (url t) = Some e"
      using ent by simp
    show ?thesis
      unfolding eq pool_inv_def using 1 2 3 4 5 6 7 8 by blast
  next
    case leave: False
    let ?ws = "(workers p)[?i := Returned]"
    let ?p = "p\<lparr>store := (store p)(url tgt \<mapsto> ?e),
         completed := completed p @ [idx],
         summaryText := summary_of targets ((store p)(url tgt \<mapsto> ?e)),
         workers := ?ws\<rparr>"
    have eq: "resume targets net ev p = ?p"
      using resume_enabled [where net = net and targets = targets, OF i w r] leave by simp
    have 1: "cursor ?p \<le> length targets" using c by simp
    have 2: "map snd (claimed ?p) = [0..<cursor ?p]" using cl by simp
    have 3: "\<forall>w \<in> set (workers ?p). \<forall>e. w \<noteq> Rejected e"
      using nr set_update_subset_insert [of "workers p" ?i] by auto
    have 4: "in_flight ?p + length (completed ?p) = cursor ?p"
      using in_flight_update [OF i aw, of Returned] fl
      by (simp add: in_flight_def)
    have 5: "Returned \<in> set (workers ?p) \<longrightarrow> cursor ?p = length targets"
      using c leave by simp
    have 6: "\<forall>w idx tgt. w < length (workers ?p) \<and> workers ?p ! w = Awaiting idx tgt \<longrightarrow>
         idx < cursor ?p \<and> tgt = targets ! idx"
    proof (intro allI impI)
      fix w j t
      assume a: "w < length (workers ?p) \<and> workers ?p ! w = Awaiting j t"
      show "j < cursor ?p \<and> t = targets ! j"
      proof (cases "w = ?i")
        case True
        with a i show ?thesis by auto
      next
        case False
        with a have "w < length (workers p) \<and> workers p ! w = Awaiting j t" by simp
        with aw_ok have "j < cursor p \<and> t = targets ! j" by blast
        then show ?thesis by simp
      qed
    qed
    have 7: "\<forall>j < cursor ?p. Awaiting j (targets ! j) \<in> set (workers ?p) \<or>
         has_result targets ?p j"
    proof (intro allI impI)
      fix j assume "j < cursor ?p"
      then have "j < cursor p" by simp
      with cov have "Awaiting j (targets ! j) \<in> set (workers p) \<or> has_result targets p j"
        by blast
      then show "Awaiting j (targets ! j) \<in> set (workers ?p) \<or> has_result targets ?p j"
      proof
        assume "Awaiting j (targets ! j) \<in> set (workers p)"
        from mem_update_cases [OF this i]
        have "Awaiting j (targets ! j) \<in> set ?ws \<or> workers p ! ?i = Awaiting j (targets ! j)" .
        then show ?thesis
        proof
          assume "Awaiting j (targets ! j) \<in> set ?ws"
          then show ?thesis by simp
        next
          assume "workers p ! ?i = Awaiting j (targets ! j)"
          with w have "url (targets ! j) = url tgt" by auto
          then show ?thesis using has_result_store(2) [OF _ es] by blast
        qed
      next
        assume "has_result targets p j"
        then show ?thesis using has_result_store(2) [OF _ es] by blast
      qed
    qed
    have 8: "\<forall>t \<in> set targets. \<exists>e. store ?p (url t) = Some e"
      using ent by simp
    show ?thesis
      unfolding eq pool_inv_def using 1 2 3 4 5 6 7 8 by blast
  qed
qed


lemma pool_inv_spawn:
  "pool_inv targets p \<Longrightarrow> pool_inv targets (fold (start_worker targets) ws p)"
  by (induction ws arbitrary: p) (simp_all add: pool_inv_start_worker)

lemma pool_inv_run_events:
  "pool_inv targets p \<Longrightarrow> pool_inv targets (run_events targets net evs p)"
  unfolding run_events_def
  by (induction evs arbitrary: p) (simp_all add: pool_inv_resume)

lemma pool_inv_runChecks: "pool_inv targets (runChecks targets conc net now st evs)"
  unfolding runChecks_def runChecks_begin_def
  by (intro pool_inv_run_events pool_inv_spawn pool_inv_initial)

lemma workers_start_worker:
  "length (workers (start_worker targets w p)) = Suc (length (workers p))"
  by (simp add: start_worker_eq)

lemma workers_spawn:
  "length (workers (fold (start_worker targets) ws p)) = length (workers p) + length ws"
  by (induction ws arbitrary: p) (simp_all add: workers_start_worker)

lemma workers_resume: "length (workers (resume targets net ev p)) = length (workers p)"
proof (cases "enabled p ev")
  case False
  then show ?thesis by (simp add: resume_disabled)
next
  case True
  then obtain idx tgt where "who ev < length (workers p)" "workers p ! who ev = Awaiting idx tgt"
    by (cases "workers p ! who ev") (auto simp: enabled_def)
  moreover obtain r where "probe (net idx) = Inr r" using probe_total by blast
  ultimately show ?thesis
    using resume_enabled [where net = net and targets = targets and ev = ev and p = p]
    by simp
qed

lemma workers_run_events:
  "length (workers (run_events targets net evs p)) = length (workers p)"
  unfolding run_events_def
  by (induction evs arbitrary: p) (simp_all add: workers_resume)

lemma workers_runChecks: "length (workers (runChecks targets conc net now st evs)) = conc"
  by (simp add: runChecks_def runChecks_begin_def workers_run_events workers_spawn render_def)

lemma fulfilled_results:
  assumes inv: "pool_inv targets p" and ne: "workers p \<noteq> []" and f: "fulfilled p"
    and t: "t \<in> set targets"
  shows "\<exists>e. store p (url t) = Some e \<and> status e \<noteq> CHECKING"
proof -
  from f have all: "\<forall>w \<in> set (workers p). w = Returned"
    by (simp add: fulfilled_def list_all_iff)
  with ne have "Returned \<in> set (workers p)"
    by (cases "workers p") auto
  with inv have c: "cursor p = length targets" by (simp add: pool_inv_def)
  from t obtain idx where idx: "idx < length targets" "targets ! idx = t"
    by (auto simp: in_set_conv_nth)
  from all have "Awaiting idx (targets ! idx) \<notin> set (workers p)" by auto
  with inv c idx have "has_result targets p idx" by (auto simp: pool_inv_def)
  with idx show ?thesis by (simp add: has_result_def)
qed

lemma status_cases:
  "s \<noteq> CHECKING \<Longrightarrow> s = UP \<or> s = UP_OPAQUE \<or> s = SLOW \<or> s = DOWN"
  by (cases s) simp_all

section \<open>Completion of a cycle\<close>

text \<open>
  C5. With at least one worker, in a cycle run on its own: when \<open>Promise.all(workers)\<close>
  is fulfilled, every target of the list has exactly one entry in the store, and the
  status of that entry is UP, UP_OPAQUE, SLOW or DOWN, not CHECKING. The script has
  \<open>CONCURRENCY = 6\<close>. That the promise is fulfilled, after as many completions as there
  are targets, is \<open>cycle_terminates\<close> below; that a probe can complete as long as it is
  not, is \<open>cycle_progress\<close>.
\<close>

theorem cycle_complete:
  assumes "0 < conc" and "fulfilled (runChecks targets conc net now st evs)"
    and "t \<in> set targets"
  shows "\<exists>!e. store (runChecks targets conc net now st evs) (url t) = Some e \<and>
           (status e = UP \<or> status e = UP_OPAQUE \<or> status e = SLOW \<or> status e = DOWN)"
proof -
  let ?p = "runChecks targets conc net now st evs"
  have "workers ?p \<noteq> []" using assms(1) workers_runChecks [of targets conc net now st evs]
    by auto
  from fulfilled_results [OF pool_inv_runChecks this assms(2,3)]
  obtain e where "store ?p (url t) = Some e" "status e \<noteq> CHECKING" by blast
  then show ?thesis using status_cases by auto
qed

lemma completed_resume:
  assumes "enabled p ev"
  shows "length (completed (resume targets net ev p)) = Suc (length (completed p))"
proof -
  from assms obtain idx tgt where "who ev < length (workers p)" "workers p ! who ev = Awaiting idx tgt"
    by (cases "workers p ! who ev") (auto simp: enabled_def)
  moreover obtain r where "probe (net idx) = Inr r" using probe_total by blast
  ultimately show ?thesis
    using resume_enabled [where net = net and targets = targets and ev = ev and p = p]
    by simp
qed

lemma completed_run_events:
  "schedule_ok targets net evs p \<Longrightarrow>
   length (completed (run_events targets net evs p)) = length (completed p) + length evs"
  unfolding run_events_def
  by (induction evs arbitrary: p) (simp_all add: completed_resume)

lemma in_flight_zero: "in_flight p = 0 \<Longrightarrow> w \<in> set (workers p) \<Longrightarrow> \<not> is_awaiting w"
  by (auto simp: in_flight_def filter_empty_conv)

lemma all_completed_fulfilled:
  assumes inv: "pool_inv targets p" and n: "length (completed p) = length targets"
  shows "fulfilled p"
proof -
  from inv n have "in_flight p = 0" by (simp add: pool_inv_def)
  then have "\<forall>w \<in> set (workers p). \<not> is_awaiting w" using in_flight_zero by blast
  moreover from inv have "\<forall>w \<in> set (workers p). \<forall>e. w \<noteq> Rejected e"
    by (simp add: pool_inv_def)
  ultimately have "\<forall>w \<in> set (workers p). w = Returned"
    by (metis is_awaiting.elims(3))
  then show ?thesis by (simp add: fulfilled_def list_all_iff)
qed

lemma cycle_terminates:
  assumes "schedule_ok targets net evs (runChecks_begin targets conc now st)"
    and "length evs = length targets"
  shows "fulfilled (runChecks targets conc net now st evs)"
proof -
  have "completed (runChecks_begin targets conc now st) = []"
  proof -
    have "completed (fold (start_worker targets) ws p) = completed p" for ws p
      by (induction ws arbitrary: p) (simp_all add: start_worker_eq)
    then show ?thesis by (simp add: runChecks_begin_def render_def)
  qed
  with completed_run_events [OF assms(1)] assms(2)
  have "length (completed (runChecks targets conc net now st evs)) = length targets"
    by (simp add: runChecks_def)
  with pool_inv_runChecks show ?thesis by (rule all_completed_fulfilled)
qed

lemma cycle_progress:
  assumes "\<not> fulfilled (runChecks targets conc net now st evs)"
  shows "\<exists>ev. enabled (runChecks targets conc net now st evs) ev"
proof -
  let ?p = "runChecks targets conc net now st evs"
  from assms obtain w where w: "w \<in> set (workers ?p)" "w \<noteq> Returned"
    by (auto simp: fulfilled_def list_all_iff)
  have "\<forall>e. w \<noteq> Rejected e"
    using pool_inv_runChecks [of targets conc net now st evs] w(1)
    by (simp add: pool_inv_def)
  with w(2) have "is_awaiting w" by (cases w) auto
  moreover from w(1) obtain i where "i < length (workers ?p)" "workers ?p ! i = w"
    by (auto simp: in_set_conv_nth)
  ultimately have "enabled ?p \<lparr>who = i, date_now = 0\<rparr>" by (simp add: enabled_def)
  then show ?thesis ..
qed

section \<open>The bound on the probes in flight\<close>

text \<open>
  C6. After any sequence of completions, the pool has exactly \<open>conc\<close> workers, each
  of them waiting for at most one probe, and the probes in flight (those started and
  not yet completed) are at most \<open>conc\<close>, whatever the number of targets. The number
  in flight changes only where a worker starts a probe or a probe completes, and a
  worker starts a probe only after its previous one has completed, so the bound holds
  between these states as well.
\<close>

theorem concurrency_bound:
  "length (workers (runChecks targets conc net now st evs)) = conc \<and>
   in_flight (runChecks targets conc net now st evs) \<le> conc \<and>
   length (claimed (runChecks targets conc net now st evs)) =
     in_flight (runChecks targets conc net now st evs) +
     length (completed (runChecks targets conc net now st evs))"
proof -
  let ?p = "runChecks targets conc net now st evs"
  have w: "length (workers ?p) = conc" by (rule workers_runChecks)
  have "in_flight ?p \<le> length (workers ?p)" by (simp add: in_flight_def)
  moreover have "length (map snd (claimed ?p)) = length [0..<cursor ?p]"
    using pool_inv_runChecks [of targets conc net now st evs] by (simp only: pool_inv_def)
  moreover have "in_flight ?p + length (completed ?p) = cursor ?p"
    using pool_inv_runChecks [of targets conc net now st evs] by (simp add: pool_inv_def)
  ultimately show ?thesis using w by simp
qed

section \<open>The five-target cycle, step by step\<close>

lemma resume_control:
  "workers (resume targets net ev p) =
     (if enabled p ev
      then (workers p)[who ev := (if cursor p < length targets
                                  then Awaiting (cursor p) (targets ! cursor p) else Returned)]
      else workers p)"
  "cursor (resume targets net ev p) =
     (if enabled p ev \<and> cursor p < length targets then Suc (cursor p) else cursor p)"
  "claimed (resume targets net ev p) =
     (if enabled p ev \<and> cursor p < length targets then claimed p @ [(who ev, cursor p)]
      else claimed p)"
proof -
  show "workers (resume targets net ev p) =
     (if enabled p ev
      then (workers p)[who ev := (if cursor p < length targets
                                  then Awaiting (cursor p) (targets ! cursor p) else Returned)]
      else workers p)"
  proof (cases "enabled p ev")
    case False
    then show ?thesis by (simp add: resume_disabled)
  next
    case True
    then obtain idx tgt where "who ev < length (workers p)" "workers p ! who ev = Awaiting idx tgt"
      by (cases "workers p ! who ev") (auto simp: enabled_def)
    moreover obtain r where "probe (net idx) = Inr r" using probe_total by blast
    ultimately show ?thesis
      using True resume_enabled [where net = net and targets = targets and ev = ev and p = p]
      by simp
  qed
  show "cursor (resume targets net ev p) =
     (if enabled p ev \<and> cursor p < length targets then Suc (cursor p) else cursor p)"
  proof (cases "enabled p ev")
    case False
    then show ?thesis by (simp add: resume_disabled)
  next
    case True
    then obtain idx tgt where "who ev < length (workers p)" "workers p ! who ev = Awaiting idx tgt"
      by (cases "workers p ! who ev") (auto simp: enabled_def)
    moreover obtain r where "probe (net idx) = Inr r" using probe_total by blast
    ultimately show ?thesis
      using True resume_enabled [where net = net and targets = targets and ev = ev and p = p]
      by simp
  qed
  show "claimed (resume targets net ev p) =
     (if enabled p ev \<and> cursor p < length targets then claimed p @ [(who ev, cursor p)]
      else claimed p)"
  proof (cases "enabled p ev")
    case False
    then show ?thesis by (simp add: resume_disabled)
  next
    case True
    then obtain idx tgt where "who ev < length (workers p)" "workers p ! who ev = Awaiting idx tgt"
      by (cases "workers p ! who ev") (auto simp: enabled_def)
    moreover obtain r where "probe (net idx) = Inr r" using probe_total by blast
    ultimately show ?thesis
      using True resume_enabled [where net = net and targets = targets and ev = ev and p = p]
      by simp
  qed
qed

lemma upt_0_2: "[0..<2] = [0, Suc 0]"
  by (simp add: numeral_2_eq_2)

lemma five_run_Suc:
  "k < 5 \<Longrightarrow> five_run (Suc k) = resume five_targets five_probes (five_events ! k) (five_run k)"
proof -
  assume "k < 5"
  then have "k < length five_events" by (simp add: five_events_def)
  then show ?thesis
    by (simp add: five_run_def runChecks_def run_events_def take_Suc_conv_app_nth)
qed

lemma five_run_steps:
  "five_run (Suc 0) = resume five_targets five_probes (five_events ! 0) (five_run 0)"
  "five_run 2 = resume five_targets five_probes (five_events ! Suc 0) (five_run (Suc 0))"
  "five_run 3 = resume five_targets five_probes (five_events ! 2) (five_run 2)"
  "five_run 4 = resume five_targets five_probes (five_events ! 3) (five_run 3)"
  "five_run 5 = resume five_targets five_probes (five_events ! 4) (five_run 4)"
  using five_run_Suc [of 0] five_run_Suc [of 1] five_run_Suc [of 2] five_run_Suc [of 3]
    five_run_Suc [of 4]
  by (simp_all add: eval_nat_numeral)

lemma five_run_0:
  "workers (five_run 0) = [Awaiting 0 (five_targets ! 0), Awaiting 1 (five_targets ! 1)]"
  "cursor (five_run 0) = 2" "claimed (five_run 0) = [(0, 0), (1, 1)]"
  by (simp_all add: five_run_def runChecks_def run_events_def runChecks_begin_def upt_0_2
      start_worker_eq render_def five_targets_def)

lemma five_run_1:
  "workers (five_run (Suc 0)) = [Awaiting 0 (five_targets ! 0), Awaiting 2 (five_targets ! 2)]"
  "cursor (five_run (Suc 0)) = 3" "claimed (five_run (Suc 0)) = [(0, 0), (1, 1), (1, 2)]"
  by (simp_all add: five_run_steps(1) resume_control five_run_0 enabled_def five_events_def five_targets_def)


lemma five_run_2:
  "workers (five_run 2) = [Awaiting 3 (five_targets ! 3), Awaiting 2 (five_targets ! 2)]"
  "cursor (five_run 2) = 4" "claimed (five_run 2) = [(0, 0), (1, 1), (1, 2), (0, 3)]"
  by (simp_all add: five_run_steps(2) resume_control five_run_1 enabled_def five_events_def five_targets_def)

lemma five_run_3:
  "workers (five_run 3) = [Awaiting 3 (five_targets ! 3), Awaiting 4 (five_targets ! 4)]"
  "cursor (five_run 3) = 5"
  "claimed (five_run 3) = [(0, 0), (1, 1), (1, 2), (0, 3), (1, 4)]"
  by (simp_all add: five_run_steps(3) resume_control five_run_2 enabled_def five_events_def five_targets_def)

lemma five_run_4:
  "workers (five_run 4) = [Awaiting 3 (five_targets ! 3), Returned]"
  "cursor (five_run 4) = 5"
  "claimed (five_run 4) = [(0, 0), (1, 1), (1, 2), (0, 3), (1, 4)]"
  by (simp_all add: five_run_steps(4) resume_control five_run_3 enabled_def five_events_def five_targets_def)

lemma five_run_5:
  "workers (five_run 5) = [Returned, Returned]"
  "cursor (five_run 5) = 5"
  "claimed (five_run 5) = [(0, 0), (1, 1), (1, 2), (0, 3), (1, 4)]"
  by (simp_all add: five_run_steps(5) resume_control five_run_4 enabled_def five_events_def five_targets_def)

lemma five_run_all: "five_run 5 = runChecks five_targets 2 five_probes 0 Map.empty five_events"
  by (simp add: five_run_def five_events_def)

text \<open>The five-target cycle is fulfilled after its five completions.\<close>

theorem cycle_complete_witness:
  "fulfilled (runChecks five_targets 2 five_probes 0 Map.empty five_events) \<and>
   five_targets ! 3 \<in> set five_targets \<and>
   (\<exists>!e. store (runChecks five_targets 2 five_probes 0 Map.empty five_events)
            (url (five_targets ! 3)) = Some e \<and>
          (status e = UP \<or> status e = UP_OPAQUE \<or> status e = SLOW \<or> status e = DOWN))"
proof -
  have f: "fulfilled (runChecks five_targets 2 five_probes 0 Map.empty five_events)"
    using five_run_5(1) by (simp add: fulfilled_def five_run_all)
  have t: "five_targets ! 3 \<in> set five_targets" by (simp add: five_targets_def)
  from cycle_complete [OF _ f t] f t show ?thesis by simp
qed

text \<open>
  After three completions of the five-target cycle all five probes have been started,
  three have completed and two are in flight.
\<close>

theorem concurrency_bound_witness:
  "length (workers (runChecks five_targets 2 five_probes 0 Map.empty (take 3 five_events))) = 2 \<and>
   in_flight (runChecks five_targets 2 five_probes 0 Map.empty (take 3 five_events)) = 2 \<and>
   length (claimed (runChecks five_targets 2 five_probes 0 Map.empty (take 3 five_events))) = 5 \<and>
   length (completed (runChecks five_targets 2 five_probes 0 Map.empty (take 3 five_events))) = 3"
  using concurrency_bound [of five_targets 2 five_probes 0 Map.empty "take 3 five_events"]
    five_run_3
  by (simp add: in_flight_def five_run_def)


section \<open>Who claims\<close>

lemma claimed_spawn:
  assumes "\<forall>c \<in> set (claimed p). fst c < conc" "\<forall>w \<in> set ws. w < conc"
  shows "\<forall>c \<in> set (claimed (fold (start_worker targets) ws p)). fst c < conc"
  using assms
proof (induction ws arbitrary: p)
  case Nil
  then show ?case by simp
next
  case (Cons w ws)
  have "\<forall>c \<in> set (claimed (start_worker targets w p)). fst c < conc"
    using Cons.prems by (auto simp: start_worker_eq)
  with Cons show ?case by simp
qed

lemma claimed_run_events:
  assumes "\<forall>c \<in> set (claimed p). fst c < conc" "length (workers p) = conc"
  shows "\<forall>c \<in> set (claimed (run_events targets net evs p)). fst c < conc"
  using assms unfolding run_events_def
proof (induction evs arbitrary: p)
  case Nil
  then show ?case by simp
next
  case (Cons ev evs)
  have "\<forall>c \<in> set (claimed (resume targets net ev p)). fst c < conc"
    using Cons.prems by (auto simp: resume_control enabled_def)
  moreover have "length (workers (resume targets net ev p)) = conc"
    using Cons.prems by (simp add: workers_resume)
  ultimately show ?case using Cons.IH by simp
qed

lemma claimed_runChecks:
  "\<forall>c \<in> set (claimed (runChecks targets conc net now st evs)). fst c < conc"
  unfolding runChecks_def runChecks_begin_def
  by (intro claimed_run_events claimed_spawn) (simp_all add: render_def workers_spawn)

section \<open>The shared cursor\<close>

text \<open>
  C7. After any sequence of completions, the indexes claimed so far are
  \<open>0, 1, ..., cursor - 1\<close> in this order: each index below the cursor was claimed
  exactly once, by one worker of the pool, none was skipped and none claimed twice,
  and each claimed index is being probed by a worker or has its result. With at least
  one worker, when all workers have returned, the claimed indexes are all the indexes
  of the list. A worker waits for one probe at a time; different workers wait at the
  same time.
\<close>

theorem claimed_exactly_once:
  "map snd (claimed (runChecks targets conc net now st evs)) =
     [0..<cursor (runChecks targets conc net now st evs)] \<and>
   cursor (runChecks targets conc net now st evs) \<le> length targets \<and>
   distinct (map snd (claimed (runChecks targets conc net now st evs))) \<and>
   (\<forall>c \<in> set (claimed (runChecks targets conc net now st evs)). fst c < conc) \<and>
   (\<forall>idx < cursor (runChecks targets conc net now st evs).
      Awaiting idx (targets ! idx) \<in> set (workers (runChecks targets conc net now st evs)) \<or>
      has_result targets (runChecks targets conc net now st evs) idx) \<and>
   (0 < conc \<and> fulfilled (runChecks targets conc net now st evs) \<longrightarrow>
      map snd (claimed (runChecks targets conc net now st evs)) = [0..<length targets])"
proof -
  let ?p = "runChecks targets conc net now st evs"
  have inv: "pool_inv targets ?p" by (rule pool_inv_runChecks)
  then have m: "map snd (claimed ?p) = [0..<cursor ?p]" and c: "cursor ?p \<le> length targets"
    and cov: "\<forall>idx < cursor ?p. Awaiting idx (targets ! idx) \<in> set (workers ?p) \<or>
      has_result targets ?p idx"
    and rt: "Returned \<in> set (workers ?p) \<longrightarrow> cursor ?p = length targets"
    by (simp_all add: pool_inv_def)
  have d: "distinct (map snd (claimed ?p))" by (simp add: m)
  have e: "0 < conc \<and> fulfilled ?p \<longrightarrow> map snd (claimed ?p) = [0..<length targets]"
  proof
    assume a: "0 < conc \<and> fulfilled ?p"
    then have "workers ?p \<noteq> []"
      using workers_runChecks [of targets conc net now st evs] by auto
    moreover from a have "\<forall>w \<in> set (workers ?p). w = Returned"
      by (simp add: fulfilled_def list_all_iff)
    ultimately have "Returned \<in> set (workers ?p)" by (cases "workers ?p") auto
    with rt m show "map snd (claimed ?p) = [0..<length targets]" by simp
  qed
  from m c d claimed_runChecks [of targets conc net now st evs] cov e show ?thesis by blast
qed

text \<open>The claims of the five-target cycle: worker 0 takes 0 and 3, worker 1 takes 1, 2, 4.\<close>

theorem claimed_exactly_once_witness:
  "fulfilled (runChecks five_targets 2 five_probes 0 Map.empty five_events) \<and>
   claimed (runChecks five_targets 2 five_probes 0 Map.empty five_events) =
     [(0, 0), (1, 1), (1, 2), (0, 3), (1, 4)] \<and>
   map snd (claimed (runChecks five_targets 2 five_probes 0 Map.empty five_events)) =
     [0..<length five_targets]"
proof -
  have f: "fulfilled (runChecks five_targets 2 five_probes 0 Map.empty five_events)"
    using five_run_5(1) by (simp add: fulfilled_def five_run_all)
  have n: "length five_targets = 5" by (simp add: five_targets_def)
  from f claimed_exactly_once [of five_targets 2 five_probes 0 Map.empty five_events]
  show ?thesis using five_run_5(2,3) n by (simp add: five_run_all)
qed

section \<open>The summary line\<close>

lemma count_target_fields:
  "up_count (count_target st acc t) =
     up_count acc +
     (case st (url t) of None \<Rightarrow> 0
      | Some s \<Rightarrow> if status s = UP \<or> status s = UP_OPAQUE then 1 else 0)"
  "down_count (count_target st acc t) =
     down_count acc +
     (case st (url t) of None \<Rightarrow> 0 | Some s \<Rightarrow> if status s = DOWN then 1 else 0)"
  "checking_count (count_target st acc t) =
     checking_count acc +
     (case st (url t) of None \<Rightarrow> 1
      | Some s \<Rightarrow> if status s = CHECKING \<or> status s = SLOW then 1 else 0)"
proof -
  show "up_count (count_target st acc t) =
     up_count acc +
     (case st (url t) of None \<Rightarrow> 0
      | Some s \<Rightarrow> if status s = UP \<or> status s = UP_OPAQUE then 1 else 0)"
    by (simp add: count_target_def split: option.splits)
  show "down_count (count_target st acc t) =
     down_count acc +
     (case st (url t) of None \<Rightarrow> 0 | Some s \<Rightarrow> if status s = DOWN then 1 else 0)"
    by (simp add: count_target_def split: option.splits)
  show "checking_count (count_target st acc t) =
     checking_count acc +
     (case st (url t) of None \<Rightarrow> 1
      | Some s \<Rightarrow> if status s = CHECKING \<or> status s = SLOW then 1 else 0)"
  proof (cases "st (url t)")
    case None
    then show ?thesis by (simp add: count_target_def)
  next
    case (Some s)
    then show ?thesis by (cases "status s") (simp_all add: count_target_def)
  qed
qed

lemma up_count_foldl:
  "up_count (foldl (count_target st) acc ts) =
     up_count acc +
     length (filter (\<lambda>t. case st (url t) of None \<Rightarrow> False
                         | Some s \<Rightarrow> status s = UP \<or> status s = UP_OPAQUE) ts)"
  by (induction ts arbitrary: acc) (simp_all add: count_target_fields split: option.splits)

lemma down_count_foldl:
  "down_count (foldl (count_target st) acc ts) =
     down_count acc +
     length (filter (\<lambda>t. case st (url t) of None \<Rightarrow> False | Some s \<Rightarrow> status s = DOWN) ts)"
  by (induction ts arbitrary: acc) (simp_all add: count_target_fields split: option.splits)

lemma checking_count_foldl:
  "checking_count (foldl (count_target st) acc ts) =
     checking_count acc +
     length (filter (\<lambda>t. case st (url t) of None \<Rightarrow> True
                         | Some s \<Rightarrow> status s = CHECKING \<or> status s = SLOW) ts)"
  by (induction ts arbitrary: acc) (simp_all add: count_target_fields split: option.splits)

text \<open>
  C10. In the counts that \<open>render\<close> writes to the summary line, \<open>up\<close> counts the
  targets whose entry is UP or UP_OPAQUE, \<open>down\<close> those whose entry is DOWN, and
  \<open>checking\<close> all the others: the targets whose entry is CHECKING or SLOW and the
  targets without an entry. A SLOW target is counted as checking, not as up.
\<close>

theorem summary_buckets:
  "up_count (summary_of targets st) =
     length (filter (\<lambda>t. case st (url t) of None \<Rightarrow> False
                         | Some s \<Rightarrow> status s = UP \<or> status s = UP_OPAQUE) targets) \<and>
   down_count (summary_of targets st) =
     length (filter (\<lambda>t. case st (url t) of None \<Rightarrow> False
                         | Some s \<Rightarrow> status s = DOWN) targets) \<and>
   checking_count (summary_of targets st) =
     length (filter (\<lambda>t. case st (url t) of None \<Rightarrow> True
                         | Some s \<Rightarrow> status s = CHECKING \<or> status s = SLOW) targets)"
  by (simp add: summary_of_def up_count_foldl down_count_foldl checking_count_foldl)


text \<open>Five targets with one entry of each kind and one without entry; one SLOW target.\<close>

theorem summary_buckets_witness:
  "summary_of five_targets mixed_store = \<lparr>up_count = 2, down_count = 1, checking_count = 2\<rparr> \<and>
   summary_of [five_targets ! 0] slow_store = \<lparr>up_count = 0, down_count = 0, checking_count = 1\<rparr>"
  using summary_buckets [of five_targets mixed_store]
    summary_buckets [of "[five_targets ! 0]" slow_store]
  by (simp add: summary_of_def count_target_def five_targets_def mixed_store_def slow_store_def)

section \<open>The period of the timer\<close>

lemma after_firings_fields:
  "delay_ms (after_firings rnd k) = REFRESH_EVERY_MS + nat \<lfloor>times_double (rnd 0) 1500\<rfloor>"
  "random_calls (after_firings rnd k) = 1"
  "cycles_started (after_firings rnd k) = Suc k"
  "clock_ms (after_firings rnd k) =
     k * (REFRESH_EVERY_MS + nat \<lfloor>times_double (rnd 0) 1500\<rfloor>)"
  by (induction k) (simp_all add: startup_def fire_def)

lemma firing_gap_value:
  "firing_gap rnd k = REFRESH_EVERY_MS + nat \<lfloor>times_double (rnd 0) 1500\<rfloor>"
  by (simp add: firing_gap_def after_firings_fields del: after_firings.simps)

text \<open>
  C8, as amended. After the startup cycle, every firing of the timer comes
  \<open>REFRESH_EVERY_MS + j\<close> milliseconds after the previous one (the first, after the
  startup), where \<open>j\<close> is the integer part of the double product of the first sample
  of \<open>Math.random()\<close> and 1500, between 0 and 1499. The sample is drawn once, when
  \<open>setInterval\<close> is called: \<open>j\<close> is the same for all firings and no firing draws
  another sample.
\<close>

theorem jitter_sampled_once:
  "is_double (rnd 0) \<Longrightarrow> 0 \<le> rnd 0 \<Longrightarrow> rnd 0 < 1 \<Longrightarrow>
     firing_gap rnd k = REFRESH_EVERY_MS + nat \<lfloor>times_double (rnd 0) 1500\<rfloor> \<and>
     0 \<le> times_double (rnd 0) 1500 \<and>
     nat \<lfloor>times_double (rnd 0) 1500\<rfloor> < 1500 \<and>
     firing_gap rnd k = firing_gap rnd 0 \<and>
     random_calls (after_firings rnd k) = 1 \<and>
     cycles_started (after_firings rnd k) = Suc k"
proof -
  assume a: "is_double (rnd 0)" "0 \<le> rnd 0" "rnd 0 < 1"
  have "0 \<le> times_double (rnd 0) 1500"
    using a(2) by (simp add: times_double_def round_double_nonneg)
  moreover have "nat \<lfloor>times_double (rnd 0) 1500\<rfloor> < 1500"
    using a by (rule floor_times_1500_below)
  ultimately show ?thesis
    by (simp add: firing_gap_value after_firings_fields del: after_firings.simps)
qed

text \<open>
  With a first sample of 1/2 the period is 120750ms before the first firing and after
  it, whatever the later samples; with the samples 0.3333333333333333 it is 120500ms,
  the product being rounded to 500.
\<close>

theorem jitter_sampled_once_witness:
  "is_double (two_samples 0) \<and> 0 \<le> two_samples 0 \<and> two_samples 0 < 1 \<and>
   firing_gap two_samples 0 = 120750 \<and> firing_gap two_samples 1 = 120750 \<and>
   random_calls (after_firings two_samples 2) = 1 \<and>
   is_double (third_samples 0) \<and> 0 \<le> third_samples 0 \<and> third_samples 0 < 1 \<and>
   firing_gap third_samples 3 = 120500"
proof -
  have a: "is_double (two_samples 0)" "0 \<le> two_samples 0" "two_samples 0 < 1"
    using half_is_double by (simp_all add: two_samples_def)
  have b: "is_double (third_samples 0)" "0 \<le> third_samples 0" "third_samples 0 < 1"
    using third_is_double by (simp_all add: third_samples_def)
  have c: "times_double (two_samples 0) 1500 = 750"
    by (simp add: two_samples_def times_double_exact)
  have d: "times_double (third_samples 0) 1500 = 500"
    using times_double_third by (simp add: third_samples_def)
  from jitter_sampled_once [of two_samples 0, OF a] jitter_sampled_once [of two_samples 1, OF a]
    jitter_sampled_once [of two_samples 2, OF a] jitter_sampled_once [of third_samples 3, OF b]
    a b
  show ?thesis by (simp add: c d REFRESH_EVERY_MS_def)
qed

text \<open>
  With samples 1/2, 0, 0, ... a fresh jitter would put the second firing 120000ms
  after the first; it comes after 120750ms, and one sample has been drawn.
\<close>

theorem fresh_jitter_counterexample:
  "firing_gap two_samples 1 = 120750 \<and> spec_firing_gap two_samples 1 = 120000 \<and>
   random_calls (after_firings two_samples 2) = 1"
proof -
  have "times_double (two_samples 0) 1500 = 750"
    by (simp add: two_samples_def times_double_exact)
  moreover have "times_double (two_samples 1) 1500 = 0"
    by (simp add: two_samples_def times_double_def round_double_def)
  ultimately show ?thesis
    by (simp add: firing_gap_value after_firings_fields spec_firing_gap_def REFRESH_EVERY_MS_def
        del: after_firings.simps)
qed

end
